theory Spec2Isabelle
  imports Main "HOL-Library.AList"
begin

section \<open>Data model (lib/agents/index.ts, lib/agents/workflow/index.ts)\<close>

text \<open>
  The TypeScript enums become datatypes. \<open>agentTypeValue\<close> gives the string value of
  an \<open>AgentType\<close> member, which the code splices into topic names
  (\<^verbatim>\<open>`task:${this.type}`\<close>). \<open>Object.values(AgentType)\<close> lists the members in
  declaration order.
\<close>

datatype AgentType = CUSTOMER_SERVICE | SCHEDULING | BILLING | DOCUMENT | WORKFLOW

fun agentTypeValue :: "AgentType \<Rightarrow> string" where
  "agentTypeValue CUSTOMER_SERVICE = ''customer_service''"
| "agentTypeValue SCHEDULING = ''scheduling''"
| "agentTypeValue BILLING = ''billing''"
| "agentTypeValue DOCUMENT = ''document''"
| "agentTypeValue WORKFLOW = ''workflow''"

definition AgentType_values :: "AgentType list" where
  "AgentType_values = [CUSTOMER_SERVICE, SCHEDULING, BILLING, DOCUMENT, WORKFLOW]"

datatype AgentStatus = IDLE | WORKING | ERROR | AGENT_COMPLETED

datatype WorkflowStepStatus = PENDING | IN_PROGRESS | COMPLETED | FAILED | SKIPPED

datatype WorkflowStatus = WF_active | WF_paused | WF_completed | WF_failed

text \<open>
  \<open>Record<string, any>\<close>: an object is an association list with distinct keys, in
  insertion order; the values the orchestrator handles are strings and nested objects.
  A \<open>Date\<close> is a number of milliseconds.
\<close>

datatype JsonValue = JString string | JObject "(string \<times> JsonValue) list"

type_synonym bag = "(string \<times> JsonValue) list"

record AgentTask =
  t_id :: string
  t_type :: string
  t_priority :: nat
  t_data :: bag
  t_createdAt :: nat
  t_deadline :: "nat option"

text \<open>
  \<open>AgentResult & { workflowId?: string; stepId?: string }\<close>: the two correlation
  fields are optional.
\<close>

record AgentResult =
  r_taskId :: string
  r_success :: bool
  r_data :: bag
  r_error :: "string option"
  r_completedAt :: nat
  r_workflowId :: "string option"
  r_stepId :: "string option"

record BaseAgent =
  a_id :: string
  a_type :: AgentType
  a_status :: AgentStatus
  a_name :: string
  a_description :: string
  a_capabilities :: "string list"

record WorkflowStep =
  s_id :: string
  s_name :: string
  s_agentType :: AgentType
  s_action :: string
  s_status :: WorkflowStepStatus
  s_config :: bag
  s_dependsOn :: "string list"
  s_result :: "AgentResult option"

record Workflow =
  w_id :: string
  w_name :: string
  w_description :: string
  w_steps :: "WorkflowStep list"
  w_data :: bag
  w_status :: WorkflowStatus
  w_createdAt :: nat
  w_updatedAt :: nat
  w_completedAt :: "nat option"

section \<open>Event bus (class AgentEventBus extends EventEmitter)\<close>

text \<open>
  A thrown value: an \<open>Error\<close> with its message, or something that is not an \<open>Error\<close>.
\<close>

datatype Thrown = Error string | NonError

text \<open>
  The bus is Node's \<open>EventEmitter\<close>: \<open>on(eventName, callback)\<close> appends the callback
  to the listeners stored under the key \<open>eventName\<close>, and \<open>emit(eventName, data)\<close> calls,
  in registration order, the listeners stored under exactly that key. The callbacks of
  this repository are bound methods; a listener is named by the method and the id of
  the object it is bound to. The bus is a public singleton, so other code can register
  callbacks too: \<open>L_external name outcome\<close> is such a synchronous callback, which returns
  (\<open>None\<close>) or throws (\<open>Some\<close>) when it is called.
\<close>

datatype Listener =
    L_createWorkflow string
  | L_startWorkflow string
  | L_pauseWorkflow string
  | L_resumeWorkflow string
  | L_cancelWorkflow string
  | L_handleTaskResult string
  | L_handleTask string
  | L_external string "Thrown option"

type_synonym AgentEventBus = "(string \<times> Listener) list"

definition subscribeToEvent :: "string \<Rightarrow> Listener \<Rightarrow> AgentEventBus \<Rightarrow> AgentEventBus" where
  "subscribeToEvent eventName callback bus = bus @ [(eventName, callback)]"

text \<open>\<open>publishEvent eventName bus\<close>: the listeners that \<open>emit\<close> invokes, in order.\<close>

definition publishEvent :: "string \<Rightarrow> AgentEventBus \<Rightarrow> Listener list" where
  "publishEvent eventName bus = map snd (filter (\<lambda>entry. fst entry = eventName) bus)"

text \<open>
  \<open>emit\<close> calls its listeners synchronously and does not catch: what a listener throws
  leaves \<open>emit\<close>, and so \<open>publishEvent\<close>, at once. The listeners of this repository are
  \<open>async\<close> methods; called, they return a promise and never throw into \<open>emit\<close>.
  \<open>publishThrows eventName bus\<close> is what \<open>publishEvent\<close> throws, if anything.
\<close>

definition listenerThrows :: "Listener \<Rightarrow> Thrown option" where
  "listenerThrows callback = (case callback of L_external name outcome \<Rightarrow> outcome | _ \<Rightarrow> None)"

definition publishThrows :: "string \<Rightarrow> AgentEventBus \<Rightarrow> Thrown option" where
  "publishThrows eventName bus =
     (case filter (\<lambda>callback. listenerThrows callback \<noteq> None) (publishEvent eventName bus) of
        [] \<Rightarrow> None
      | callback # _ \<Rightarrow> listenerThrows callback)"

section \<open>Specialized agents (lib/agents/specialized/index.ts)\<close>

text \<open>
  \<open>createSpecializedAgent\<close>: \<open>cfg_id\<close>, \<open>cfg_name\<close> and \<open>cfg_description\<close> are the
  optional entries of \<open>config\<close>; \<open>x || y\<close> takes \<open>y\<close> when \<open>x\<close> is undefined or the empty
  string. \<open>randomUUID\<close> is the value \<open>crypto.randomUUID()\<close> would return. The default
  branch of the switch throws.
\<close>

definition orElse :: "string option \<Rightarrow> string \<Rightarrow> string" where
  "orElse x y = (case x of None \<Rightarrow> y | Some v \<Rightarrow> if v = [] then y else v)"

fun capabilitiesOf :: "AgentType \<Rightarrow> string list" where
  "capabilitiesOf CUSTOMER_SERVICE =
     [''customer_inquiry_handling'', ''complaint_resolution'', ''feedback_collection'',
      ''customer_communication'']"
| "capabilitiesOf SCHEDULING =
     [''appointment_scheduling'', ''calendar_management'', ''availability_checking'',
      ''reminder_sending'']"
| "capabilitiesOf BILLING =
     [''invoice_generation'', ''payment_processing'', ''expense_tracking'',
      ''financial_reporting'']"
| "capabilitiesOf DOCUMENT =
     [''document_generation'', ''document_analysis'', ''template_management'',
      ''document_storage'']"
| "capabilitiesOf WORKFLOW =
     [''workflow_orchestration'', ''process_automation'', ''task_coordination'',
      ''business_logic_execution'']"

definition createSpecializedAgent ::
  "string \<Rightarrow> AgentType \<Rightarrow> string option \<Rightarrow> string option \<Rightarrow> string option
    \<Rightarrow> Thrown + BaseAgent" where
  "createSpecializedAgent randomUUID type cfg_id cfg_name cfg_description =
     (let ident = orElse cfg_id randomUUID;
          name = orElse cfg_name (agentTypeValue type @ '' Agent'');
          description = orElse cfg_description (''Default '' @ agentTypeValue type @ '' agent'')
      in if type = WORKFLOW
         then Inl (Error (''Unsupported agent type: '' @ agentTypeValue type))
         else Inr \<lparr> a_id = ident, a_type = type, a_status = IDLE, a_name = name,
                    a_description = description, a_capabilities = capabilitiesOf type \<rparr>)"

text \<open>
  \<open>SpecializedAgent.initialize\<close>: the agent becomes idle and subscribes its
  \<open>handleTask\<close> to the dispatch topic of its type.
\<close>

definition agent_initialize :: "BaseAgent \<Rightarrow> AgentEventBus \<Rightarrow> BaseAgent \<times> AgentEventBus" where
  "agent_initialize agent bus =
     (agent\<lparr>a_status := IDLE\<rparr>,
      subscribeToEvent (''task:'' @ agentTypeValue (a_type agent)) (L_handleTask (a_id agent)) bus)"

text \<open>
  \<open>SpecializedAgent.handleTask\<close>. \<open>execute\<close> is the subclass's method: it returns a
  result (\<open>Inr\<close>) or throws (\<open>Inl\<close>). \<open>now\<close> is the value of \<open>new Date()\<close>. The publish
  of the result stands inside the \<open>try\<close> block: when it throws, the \<open>catch\<close> block runs
  and publishes an error result as well. The function returns the agent after the
  \<open>finally\<close> block, the events passed to \<open>agentEventBus.publishEvent\<close> (oldest first), and
  what the method's promise is rejected with, if the publish in the \<open>catch\<close> block throws.
\<close>

definition errorResult :: "nat \<Rightarrow> AgentTask \<Rightarrow> Thrown \<Rightarrow> AgentResult" where
  "errorResult now task error =
     \<lparr> r_taskId = t_id task, r_success = False, r_data = [],
       r_error = Some (case error of Error message \<Rightarrow> message | NonError \<Rightarrow> ''Unknown error''),
       r_completedAt = now, r_workflowId = None, r_stepId = None \<rparr>"

definition handleTask ::
  "(AgentTask \<Rightarrow> Thrown + AgentResult) \<Rightarrow> AgentEventBus \<Rightarrow> nat \<Rightarrow> AgentTask \<Rightarrow> BaseAgent
    \<Rightarrow> BaseAgent \<times> (string \<times> AgentResult) list \<times> Thrown option" where
  "handleTask execute bus now task agent =
     (let topic = ''result:'' @ t_id task in
      case execute task of
        Inr result \<Rightarrow>
          (case publishThrows topic bus of
             None \<Rightarrow> (agent\<lparr>a_status := IDLE\<rparr>, [(topic, result)], None)
           | Some error \<Rightarrow>
               (agent\<lparr>a_status := IDLE\<rparr>,
                [(topic, result), (topic, errorResult now task error)],
                publishThrows topic bus))
      | Inl error \<Rightarrow>
          (agent\<lparr>a_status := IDLE\<rparr>, [(topic, errorResult now task error)],
           publishThrows topic bus))"

text \<open>
  The four concrete \<open>execute\<close> methods wait one second and return a successful result
  without correlation fields.
\<close>

fun processedLabel :: "AgentType \<Rightarrow> string" where
  "processedLabel CUSTOMER_SERVICE = ''customer service''"
| "processedLabel t = agentTypeValue t"

definition specialized_execute :: "AgentType \<Rightarrow> nat \<Rightarrow> AgentTask \<Rightarrow> Thrown + AgentResult" where
  "specialized_execute type now task =
     Inr \<lparr> r_taskId = t_id task, r_success = True,
           r_data = [(''response'',
                      JString (''Processed '' @ processedLabel type @ '' task: '' @ t_type task))],
           r_error = None, r_completedAt = now, r_workflowId = None, r_stepId = None \<rparr>"

section \<open>Workflow orchestrator (class WorkflowOrchestratorAgent)\<close>

text \<open>
  The orchestrator's fields, the events it has passed to \<open>agentEventBus.publishEvent\<close>
  (oldest first), and the number of \<open>uuidv4()\<close> calls made so far. \<open>uuidv4\<close> is external
  and random: the functions below take a sequence \<open>gen\<close> whose \<open>n\<close>-th element is the value
  returned by call number \<open>n\<close>. They also take \<open>now\<close>, the value \<open>new Date()\<close> yields while
  the method runs. A method with a loop suspends at the \<open>await\<close> in the loop body, and
  other listeners can run before it goes on. \<open>startWorkflow\<close>, \<open>resumeWorkflow\<close> and
  \<open>handleTaskResult\<close> below give the method run from its first to its last statement
  with no other listener in between; the pieces between two \<open>await\<close>s follow in the
  subsection on suspension.
\<close>

datatype EventData =
    TaskEvent AgentTask
  | WorkflowEvent string
  | CompletedEvent string bool

type_synonym Event = "string \<times> EventData"

record Orchestrator =
  o_id :: string
  o_status :: AgentStatus
  o_name :: string
  o_description :: string
  o_capabilities :: "string list"
  activeWorkflows :: "string \<rightharpoonup> Workflow"
  agents :: "AgentType \<rightharpoonup> BaseAgent"
  published :: "Event list"
  uuidCalls :: nat

definition newWorkflowOrchestratorAgent :: "string \<Rightarrow> string \<Rightarrow> string \<Rightarrow> Orchestrator" where
  "newWorkflowOrchestratorAgent ident name description =
     \<lparr> o_id = ident, o_status = IDLE, o_name = name, o_description = description,
       o_capabilities = capabilitiesOf WORKFLOW,
       activeWorkflows = Map.empty, agents = Map.empty, published = [], uuidCalls = 0 \<rparr>"

subsection \<open>initialize\<close>

text \<open>
  The loop over \<open>Object.values(AgentType)\<close>: every type but \<open>WORKFLOW\<close> gets an agent,
  which is initialised (subscribing it to its dispatch topic) and registered. \<open>rnd t\<close>
  is the value of \<open>crypto.randomUUID()\<close> for the agent of type \<open>t\<close>.
\<close>

fun initializeAgents ::
  "(AgentType \<Rightarrow> string) \<Rightarrow> AgentType list \<Rightarrow> (AgentType \<rightharpoonup> BaseAgent) \<times> AgentEventBus
    \<Rightarrow> Thrown + (AgentType \<rightharpoonup> BaseAgent) \<times> AgentEventBus" where
  "initializeAgents rnd [] acc = Inr acc"
| "initializeAgents rnd (agentType # rest) (registry, bus) =
     (if agentType \<noteq> WORKFLOW then
        (case createSpecializedAgent (rnd agentType) agentType None
                (Some (agentTypeValue agentType @ '' Agent''))
                (Some (''Specialized '' @ agentTypeValue agentType @ '' agent'')) of
           Inl e \<Rightarrow> Inl e
         | Inr agent \<Rightarrow>
             (case agent_initialize agent bus of
                (agent', bus') \<Rightarrow>
                  initializeAgents rnd rest (registry(agentType \<mapsto> agent'), bus')))
      else initializeAgents rnd rest (registry, bus))"

definition orchestrator_initialize ::
  "(AgentType \<Rightarrow> string) \<Rightarrow> Orchestrator \<Rightarrow> AgentEventBus
    \<Rightarrow> Thrown + Orchestrator \<times> AgentEventBus" where
  "orchestrator_initialize rnd self bus =
     (case initializeAgents rnd AgentType_values (agents self, bus) of
        Inl e \<Rightarrow> Inl e
      | Inr (registry, bus1) \<Rightarrow>
          Inr (self\<lparr>agents := registry, o_status := IDLE\<rparr>,
               subscribeToEvent ''result:*'' (L_handleTaskResult (o_id self))
                (subscribeToEvent ''workflow:cancel'' (L_cancelWorkflow (o_id self))
                  (subscribeToEvent ''workflow:resume'' (L_resumeWorkflow (o_id self))
                    (subscribeToEvent ''workflow:pause'' (L_pauseWorkflow (o_id self))
                      (subscribeToEvent ''workflow:start'' (L_startWorkflow (o_id self))
                        (subscribeToEvent ''workflow:create'' (L_createWorkflow (o_id self))
                          bus1)))))))"

subsection \<open>createWorkflow\<close>

record StepDefinition =
  sd_id :: "string option"
  sd_name :: string
  sd_agentType :: AgentType
  sd_action :: string
  sd_config :: "bag option"
  sd_dependsOn :: "string list option"

record WorkflowDefinition =
  d_id :: "string option"
  d_name :: string
  d_description :: string
  d_steps :: "StepDefinition list"
  d_data :: "bag option"

text \<open>\<open>x || uuidv4()\<close>: a call is made only when \<open>x\<close> is undefined or empty.\<close>

definition orUuid :: "(nat \<Rightarrow> string) \<Rightarrow> string option \<Rightarrow> nat \<Rightarrow> string \<times> nat" where
  "orUuid gen x n =
     (case x of None \<Rightarrow> (gen n, Suc n)
      | Some v \<Rightarrow> if v = [] then (gen n, Suc n) else (v, n))"

fun createSteps :: "(nat \<Rightarrow> string) \<Rightarrow> StepDefinition list \<Rightarrow> nat \<Rightarrow> WorkflowStep list \<times> nat" where
  "createSteps gen [] n = ([], n)"
| "createSteps gen (step # rest) n =
     (case orUuid gen (sd_id step) n of
        (ident, n1) \<Rightarrow>
          (case createSteps gen rest n1 of
             (steps, n2) \<Rightarrow>
               (\<lparr> s_id = ident, s_name = sd_name step, s_agentType = sd_agentType step,
                   s_action = sd_action step, s_status = PENDING,
                   s_config = (case sd_config step of None \<Rightarrow> [] | Some c \<Rightarrow> c),
                   s_dependsOn = (case sd_dependsOn step of None \<Rightarrow> [] | Some ds \<Rightarrow> ds),
                   s_result = None \<rparr> # steps, n2)))"

definition createWorkflow ::
  "(nat \<Rightarrow> string) \<Rightarrow> nat \<Rightarrow> WorkflowDefinition \<Rightarrow> Orchestrator \<Rightarrow> Orchestrator" where
  "createWorkflow gen now data self =
     (case orUuid gen (d_id data) (uuidCalls self) of
        (ident, n1) \<Rightarrow>
          (case createSteps gen (d_steps data) n1 of
             (steps, n2) \<Rightarrow>
               (let workflow =
                      \<lparr> w_id = ident, w_name = d_name data, w_description = d_description data,
                        w_steps = steps,
                        w_data = (case d_data data of None \<Rightarrow> [] | Some b \<Rightarrow> b),
                        w_status = WF_active, w_createdAt = now, w_updatedAt = now,
                        w_completedAt = None \<rparr>
                in self\<lparr> activeWorkflows := (activeWorkflows self)(ident \<mapsto> workflow),
                         published := published self @ [(''workflow:created'', WorkflowEvent ident)],
                         uuidCalls := n2 \<rparr>)))"

subsection \<open>areStepDependenciesMet and executeWorkflowStep\<close>

definition areStepDependenciesMet :: "Workflow \<Rightarrow> WorkflowStep \<Rightarrow> bool" where
  "areStepDependenciesMet workflow step =
     (if length (s_dependsOn step) = 0 then True
      else list_all
             (\<lambda>dependencyId.
                case find (\<lambda>s. s_id s = dependencyId) (w_steps workflow) of
                  None \<Rightarrow> False
                | Some dependencyStep \<Rightarrow> s_status dependencyStep = COMPLETED)
             (s_dependsOn step))"

text \<open>
  A method that mutates a workflow object and publishes works on a \<open>Run\<close>: the workflow,
  the events published so far by the running method, and the \<open>uuidv4\<close> call count. A step
  object is named by its index in \<open>workflow.steps\<close>; every caller passes an element of
  that array, so the out-of-range branch is never taken.
\<close>

type_synonym Run = "Workflow \<times> Event list \<times> nat"

definition setStepStatus :: "nat \<Rightarrow> WorkflowStepStatus \<Rightarrow> Workflow \<Rightarrow> Workflow" where
  "setStepStatus i st workflow =
     workflow\<lparr>w_steps := (w_steps workflow)[i := (w_steps workflow ! i)\<lparr>s_status := st\<rparr>]\<rparr>"

definition buildTask :: "string \<Rightarrow> nat \<Rightarrow> Workflow \<Rightarrow> WorkflowStep \<Rightarrow> AgentTask" where
  "buildTask uuid now workflow step =
     \<lparr> t_id = uuid, t_type = s_action step, t_priority = 1,
       t_data = AList.update ''workflowData'' (JObject (w_data workflow))
                 (AList.update ''stepId'' (JString (s_id step))
                   (AList.update ''workflowId'' (JString (w_id workflow)) (s_config step))),
       t_createdAt = now, t_deadline = None \<rparr>"

definition executeWorkflowStep ::
  "(nat \<Rightarrow> string) \<Rightarrow> nat \<Rightarrow> (AgentType \<rightharpoonup> BaseAgent) \<Rightarrow> nat \<Rightarrow> Run \<Rightarrow> Run" where
  "executeWorkflowStep gen now registry i run =
     (case run of
        (workflow, evs, n) \<Rightarrow>
          if \<not> i < length (w_steps workflow) then run
          else if w_status workflow \<noteq> WF_active then run
          else if \<not> areStepDependenciesMet workflow (w_steps workflow ! i) then run
          else (case registry (s_agentType (w_steps workflow ! i)) of
                  None \<Rightarrow> (setStepStatus i FAILED workflow, evs, n)
                | Some agent \<Rightarrow>
                    (setStepStatus i IN_PROGRESS workflow,
                     evs @ [(''task:'' @ agentTypeValue (s_agentType (w_steps workflow ! i)),
                             TaskEvent (buildTask (gen n) now workflow (w_steps workflow ! i)))],
                     Suc n)))"

definition commit :: "string \<Rightarrow> Run \<Rightarrow> Orchestrator \<Rightarrow> Orchestrator" where
  "commit key run self =
     (case run of
        (workflow, evs, n) \<Rightarrow>
          self\<lparr> activeWorkflows := (activeWorkflows self)(key \<mapsto> workflow),
                published := published self @ evs,
                uuidCalls := n \<rparr>)"

subsection \<open>Lifecycle methods\<close>

text \<open>
  Each lifecycle method is \<open>async\<close>; its \<open>throw\<close> rejects the promise it returns to its
  caller. The model returns the rejection (if any) together with the orchestrator as the
  method leaves it.
\<close>

definition notFound :: "string \<Rightarrow> Thrown" where
  "notFound workflowId = Error (''Workflow not found: '' @ workflowId)"

definition startWorkflow ::
  "(nat \<Rightarrow> string) \<Rightarrow> nat \<Rightarrow> string \<Rightarrow> Orchestrator \<Rightarrow> Thrown option \<times> Orchestrator" where
  "startWorkflow gen now workflowId self =
     (case activeWorkflows self workflowId of
        None \<Rightarrow> (Some (notFound workflowId), self)
      | Some workflow \<Rightarrow>
          (let wf1 = workflow\<lparr>w_status := WF_active, w_updatedAt := now\<rparr>;
               initialSteps = filter (\<lambda>i. length (s_dependsOn (w_steps wf1 ! i)) = 0)
                                [0..<length (w_steps wf1)]
           in (None,
               commit workflowId
                 (fold (executeWorkflowStep gen now (agents self)) initialSteps
                    (wf1, [], uuidCalls self))
                 self)))"

definition pauseWorkflow :: "nat \<Rightarrow> string \<Rightarrow> Orchestrator \<Rightarrow> Thrown option \<times> Orchestrator" where
  "pauseWorkflow now workflowId self =
     (case activeWorkflows self workflowId of
        None \<Rightarrow> (Some (notFound workflowId), self)
      | Some workflow \<Rightarrow>
          (None,
           commit workflowId
             (workflow\<lparr>w_status := WF_paused, w_updatedAt := now\<rparr>, [], uuidCalls self) self))"

definition resumeWorkflow ::
  "(nat \<Rightarrow> string) \<Rightarrow> nat \<Rightarrow> string \<Rightarrow> Orchestrator \<Rightarrow> Thrown option \<times> Orchestrator" where
  "resumeWorkflow gen now workflowId self =
     (case activeWorkflows self workflowId of
        None \<Rightarrow> (Some (notFound workflowId), self)
      | Some workflow \<Rightarrow>
          (let wf1 = workflow\<lparr>w_status := WF_active, w_updatedAt := now\<rparr>;
               pendingSteps = filter (\<lambda>i. s_status (w_steps wf1 ! i) = PENDING
                                          \<and> areStepDependenciesMet wf1 (w_steps wf1 ! i))
                                [0..<length (w_steps wf1)]
           in (None,
               commit workflowId
                 (fold (executeWorkflowStep gen now (agents self)) pendingSteps
                    (wf1, [], uuidCalls self))
                 self)))"

definition cancelSteps :: "WorkflowStep list \<Rightarrow> WorkflowStep list" where
  "cancelSteps steps =
     map (\<lambda>step. if s_status step = PENDING then step\<lparr>s_status := SKIPPED\<rparr> else step)
       (map (\<lambda>step. if s_status step = IN_PROGRESS then step\<lparr>s_status := FAILED\<rparr> else step)
          steps)"

definition cancelWorkflow :: "nat \<Rightarrow> string \<Rightarrow> Orchestrator \<Rightarrow> Thrown option \<times> Orchestrator" where
  "cancelWorkflow now workflowId self =
     (case activeWorkflows self workflowId of
        None \<Rightarrow> (Some (notFound workflowId), self)
      | Some workflow \<Rightarrow>
          (None,
           commit workflowId
             (workflow\<lparr> w_status := WF_failed, w_updatedAt := now, w_completedAt := Some now,
                        w_steps := cancelSteps (w_steps workflow) \<rparr>,
              [(''workflow:cancelled'', WorkflowEvent (w_id workflow))],
              uuidCalls self)
             self))"

subsection \<open>handleTaskResult\<close>

primrec findIndex :: "('a \<Rightarrow> bool) \<Rightarrow> 'a list \<Rightarrow> nat option" where
  "findIndex P [] = None"
| "findIndex P (x # xs) = (if P x then Some 0 else map_option Suc (findIndex P xs))"

definition isTerminal :: "WorkflowStep \<Rightarrow> bool" where
  "isTerminal s \<longleftrightarrow> s_status s = COMPLETED \<or> s_status s = FAILED \<or> s_status s = SKIPPED"

text \<open>The fan-out loop body: the dependency check, then \<open>executeWorkflowStep\<close>.\<close>

definition dispatchDependent ::
  "(nat \<Rightarrow> string) \<Rightarrow> nat \<Rightarrow> (AgentType \<rightharpoonup> BaseAgent) \<Rightarrow> nat \<Rightarrow> Run \<Rightarrow> Run" where
  "dispatchDependent gen now registry i run =
     (if areStepDependenciesMet (fst run) (w_steps (fst run) ! i)
      then executeWorkflowStep gen now registry i run else run)"

text \<open>The completion check at the end of \<open>handleTaskResult\<close>.\<close>

definition checkCompleted :: "nat \<Rightarrow> Run \<Rightarrow> Run" where
  "checkCompleted now run =
     (case run of
        (workflow, evs, n) \<Rightarrow>
          if list_all isTerminal (w_steps workflow) then
            (let anyStepFailed = list_ex (\<lambda>s. s_status s = FAILED) (w_steps workflow)
             in (workflow\<lparr> w_status := (if anyStepFailed then WF_failed else WF_completed),
                           w_completedAt := Some now, w_updatedAt := now \<rparr>,
                 evs @ [(''workflow:completed'', CompletedEvent (w_id workflow) (\<not> anyStepFailed))],
                 n))
          else run)"

definition recordResult :: "nat \<Rightarrow> AgentResult \<Rightarrow> Workflow \<Rightarrow> Workflow" where
  "recordResult k result workflow =
     workflow\<lparr>w_steps := (w_steps workflow)
        [k := (w_steps workflow ! k)
                \<lparr> s_status := (if r_success result then COMPLETED else FAILED),
                  s_result := Some result \<rparr>]\<rparr>"

definition falsy :: "string option \<Rightarrow> bool" where
  "falsy x \<longleftrightarrow> x = None \<or> x = Some []"

definition handleTaskResult ::
  "(nat \<Rightarrow> string) \<Rightarrow> nat \<Rightarrow> AgentResult \<Rightarrow> Orchestrator \<Rightarrow> Orchestrator" where
  "handleTaskResult gen now result self =
     (if falsy (r_workflowId result) \<or> falsy (r_stepId result) then self
      else
        (case activeWorkflows self (the (r_workflowId result)) of
           None \<Rightarrow> self
         | Some workflow \<Rightarrow>
             (case findIndex (\<lambda>s. s_id s = the (r_stepId result)) (w_steps workflow) of
                None \<Rightarrow> self
              | Some k \<Rightarrow>
                  (let wf1 = recordResult k result workflow;
                       stepId = s_id (w_steps wf1 ! k);
                       dependentSteps =
                         filter (\<lambda>i. stepId \<in> set (s_dependsOn (w_steps wf1 ! i))
                                      \<and> s_status (w_steps wf1 ! i) = PENDING)
                           [0..<length (w_steps wf1)];
                       run = (if r_success result
                              then fold (dispatchDependent gen now (agents self)) dependentSteps
                                     (wf1, [], uuidCalls self)
                              else (wf1, [], uuidCalls self))
                   in commit (the (r_workflowId result)) (checkCompleted now run) self))))"

subsection \<open>The orchestrator as a listener\<close>

text \<open>
  The events the orchestrator subscribes to in \<open>initialize\<close>, each delivered to the
  method bound to it. \<open>emit\<close> ignores what a listener returns: the promise of the \<open>async\<close>
  method is held by nobody, so when the method throws, the rejection is handled by
  nobody. \<open>deliver\<close> gives the orchestrator as the method leaves it, and
  \<open>unhandledRejection\<close> the rejection that is left unhandled (Node reports it at process
  level and by default ends the process).
\<close>

datatype OrchestratorEvent =
    WorkflowCreate WorkflowDefinition
  | WorkflowStart string
  | WorkflowPause string
  | WorkflowResume string
  | WorkflowCancel string
  | TaskResult AgentResult

fun deliver :: "(nat \<Rightarrow> string) \<Rightarrow> nat \<Rightarrow> OrchestratorEvent \<Rightarrow> Orchestrator \<Rightarrow> Orchestrator" where
  "deliver gen now (WorkflowCreate data) self = createWorkflow gen now data self"
| "deliver gen now (WorkflowStart workflowId) self = snd (startWorkflow gen now workflowId self)"
| "deliver gen now (WorkflowPause workflowId) self = snd (pauseWorkflow now workflowId self)"
| "deliver gen now (WorkflowResume workflowId) self = snd (resumeWorkflow gen now workflowId self)"
| "deliver gen now (WorkflowCancel workflowId) self = snd (cancelWorkflow now workflowId self)"
| "deliver gen now (TaskResult result) self = handleTaskResult gen now result self"

definition unhandledRejection ::
  "(nat \<Rightarrow> string) \<Rightarrow> nat \<Rightarrow> OrchestratorEvent \<Rightarrow> Orchestrator \<Rightarrow> Thrown option" where
  "unhandledRejection gen now ev self =
     (case ev of
        WorkflowCreate data \<Rightarrow> None
      | WorkflowStart workflowId \<Rightarrow> fst (startWorkflow gen now workflowId self)
      | WorkflowPause workflowId \<Rightarrow> fst (pauseWorkflow now workflowId self)
      | WorkflowResume workflowId \<Rightarrow> fst (resumeWorkflow gen now workflowId self)
      | WorkflowCancel workflowId \<Rightarrow> fst (cancelWorkflow now workflowId self)
      | TaskResult result \<Rightarrow> None)"

text \<open>A sequence of events, each with the time at which it is handled.\<close>

fun runEvents ::
  "(nat \<Rightarrow> string) \<Rightarrow> (nat \<times> OrchestratorEvent) list \<Rightarrow> Orchestrator \<Rightarrow> Orchestrator" where
  "runEvents gen [] self = self"
| "runEvents gen ((now, ev) # rest) self = runEvents gen rest (deliver gen now ev self)"

subsection \<open>execute\<close>

text \<open>
  The orchestrator's own \<open>execute\<close> (here \<open>orchestrator_execute\<close>) wraps its handlers in \<open>try\<close>/\<open>catch\<close>: what a handler
  throws becomes a result with \<open>success = false\<close> (the same shape as the error result
  of a specialized agent), and the status is idle in the end. \<open>handleExecuteWorkflow\<close>
  awaits \<open>startWorkflow\<close> for \<open>task.data.workflowId\<close>; a value that is not a string is the
  key of no entry of the store. The handlers of \<open>create_workflow\<close> and \<open>update_workflow\<close>
  tasks read more of the untyped \<open>task.data\<close>; they are parameters here.
\<close>

definition templateString :: "JsonValue option \<Rightarrow> string" where
  "templateString v =
     (case v of None \<Rightarrow> ''undefined'' | Some (JString text) \<Rightarrow> text
      | Some (JObject entries) \<Rightarrow> ''[object Object]'')"

definition handleExecuteWorkflow ::
  "(nat \<Rightarrow> string) \<Rightarrow> nat \<Rightarrow> AgentTask \<Rightarrow> Orchestrator
    \<Rightarrow> (Thrown + AgentResult) \<times> Orchestrator" where
  "handleExecuteWorkflow gen now task self =
     (case map_of (t_data task) ''workflowId'' of
        Some (JString workflowId) \<Rightarrow>
          (case startWorkflow gen now workflowId self of
             (Some error, self') \<Rightarrow> (Inl error, self')
           | (None, self') \<Rightarrow>
               (Inr \<lparr> r_taskId = t_id task, r_success = True,
                      r_data = [(''workflowId'', JString workflowId),
                                (''message'', JString ''Workflow execution started'')],
                      r_error = None, r_completedAt = now,
                      r_workflowId = None, r_stepId = None \<rparr>,
                self'))
      | other \<Rightarrow> (Inl (Error (''Workflow not found: '' @ templateString other)), self))"

definition orchestrator_execute ::
  "(AgentTask \<Rightarrow> Orchestrator \<Rightarrow> (Thrown + AgentResult) \<times> Orchestrator)
    \<Rightarrow> (AgentTask \<Rightarrow> Orchestrator \<Rightarrow> (Thrown + AgentResult) \<times> Orchestrator)
    \<Rightarrow> (nat \<Rightarrow> string) \<Rightarrow> nat \<Rightarrow> AgentTask \<Rightarrow> Orchestrator
    \<Rightarrow> AgentResult \<times> Orchestrator" where
  "orchestrator_execute handleCreateWorkflow handleUpdateWorkflow gen now task self =
     (let working = self\<lparr>o_status := WORKING\<rparr>;
          outcome =
            (if t_type task = ''create_workflow'' then handleCreateWorkflow task working
             else if t_type task = ''execute_workflow''
                  then handleExecuteWorkflow gen now task working
             else if t_type task = ''update_workflow'' then handleUpdateWorkflow task working
             else (Inl (Error (''Unsupported task type: '' @ t_type task)), working))
      in case outcome of
           (Inr result, self') \<Rightarrow> (result, self'\<lparr>o_status := IDLE\<rparr>)
         | (Inl error, self') \<Rightarrow> (errorResult now task error, self'\<lparr>o_status := IDLE\<rparr>))"

subsection \<open>Suspension at await\<close>

text \<open>
  The loops of \<open>startWorkflow\<close> and \<open>resumeWorkflow\<close> await \<open>executeWorkflowStep\<close> for
  each step in turn. \<open>executeWorkflowStep\<close> has no \<open>await\<close> of its own, so the call runs
  at once, and the loop then suspends; listeners called before it goes on see the
  workflow with that step tried and the later ones not. \<open>startWorkflow_begin\<close> and
  \<open>resumeWorkflow_begin\<close> are the method up to its first suspension, with the steps the
  suspended loop has still to try. \<open>tryNextStep\<close> is the loop going on with its next
  step. The loop holds the workflow object, which is the entry of the store under the
  workflow's id as long as no create event has put another object there.
\<close>

definition startWorkflow_begin ::
  "(nat \<Rightarrow> string) \<Rightarrow> nat \<Rightarrow> string \<Rightarrow> Orchestrator
    \<Rightarrow> Thrown option \<times> Orchestrator \<times> nat list" where
  "startWorkflow_begin gen now workflowId self =
     (case activeWorkflows self workflowId of
        None \<Rightarrow> (Some (notFound workflowId), self, [])
      | Some workflow \<Rightarrow>
          (let wf1 = workflow\<lparr>w_status := WF_active, w_updatedAt := now\<rparr>;
               initialSteps = filter (\<lambda>i. length (s_dependsOn (w_steps wf1 ! i)) = 0)
                                [0..<length (w_steps wf1)]
           in case initialSteps of
                [] \<Rightarrow> (None, commit workflowId (wf1, [], uuidCalls self) self, [])
              | i # rest \<Rightarrow>
                  (None,
                   commit workflowId
                     (executeWorkflowStep gen now (agents self) i (wf1, [], uuidCalls self)) self,
                   rest)))"

definition resumeWorkflow_begin ::
  "(nat \<Rightarrow> string) \<Rightarrow> nat \<Rightarrow> string \<Rightarrow> Orchestrator
    \<Rightarrow> Thrown option \<times> Orchestrator \<times> nat list" where
  "resumeWorkflow_begin gen now workflowId self =
     (case activeWorkflows self workflowId of
        None \<Rightarrow> (Some (notFound workflowId), self, [])
      | Some workflow \<Rightarrow>
          (let wf1 = workflow\<lparr>w_status := WF_active, w_updatedAt := now\<rparr>;
               pendingSteps = filter (\<lambda>i. s_status (w_steps wf1 ! i) = PENDING
                                          \<and> areStepDependenciesMet wf1 (w_steps wf1 ! i))
                                [0..<length (w_steps wf1)]
           in case pendingSteps of
                [] \<Rightarrow> (None, commit workflowId (wf1, [], uuidCalls self) self, [])
              | i # rest \<Rightarrow>
                  (None,
                   commit workflowId
                     (executeWorkflowStep gen now (agents self) i (wf1, [], uuidCalls self)) self,
                   rest)))"

definition tryNextStep ::
  "(nat \<Rightarrow> string) \<Rightarrow> nat \<Rightarrow> string \<Rightarrow> nat \<Rightarrow> Orchestrator \<Rightarrow> Orchestrator" where
  "tryNextStep gen now workflowId i self =
     (case activeWorkflows self workflowId of
        None \<Rightarrow> self
      | Some workflow \<Rightarrow>
          commit workflowId
            (executeWorkflowStep gen now (agents self) i (workflow, [], uuidCalls self)) self)"

text \<open>
  The fan-out loop of \<open>handleTaskResult\<close> awaits only inside its \<open>if\<close>: it passes the
  dependent steps whose dependencies are not met without suspending, suspends after
  the first one it executes, and runs the completion check when no step is left.
  \<open>fanOut\<close> is the loop from a given step list to its next suspension (with the steps
  still to try) or to the method's end (\<open>None\<close>); \<open>handleTaskResult_begin\<close> is the method up
  to its first suspension or its end.
\<close>

definition completeIfDone :: "nat \<Rightarrow> string \<Rightarrow> Orchestrator \<Rightarrow> Orchestrator" where
  "completeIfDone now workflowId self =
     (case activeWorkflows self workflowId of
        None \<Rightarrow> self
      | Some workflow \<Rightarrow>
          commit workflowId (checkCompleted now (workflow, [], uuidCalls self)) self)"

fun fanOut ::
  "(nat \<Rightarrow> string) \<Rightarrow> nat \<Rightarrow> string \<Rightarrow> nat list \<Rightarrow> Orchestrator
    \<Rightarrow> Orchestrator \<times> nat list option" where
  "fanOut gen now workflowId [] self = (completeIfDone now workflowId self, None)"
| "fanOut gen now workflowId (i # rest) self =
     (case activeWorkflows self workflowId of
        None \<Rightarrow> (self, None)
      | Some workflow \<Rightarrow>
          if areStepDependenciesMet workflow (w_steps workflow ! i)
          then (commit workflowId
                  (executeWorkflowStep gen now (agents self) i (workflow, [], uuidCalls self))
                  self,
                Some rest)
          else fanOut gen now workflowId rest self)"

text \<open>
  \<open>tryDependent\<close> is one turn of the fan-out loop, and \<open>fanOutToEnd\<close> the loop from a
  step list to the method's end with no other listener in between.
\<close>

definition tryDependent ::
  "(nat \<Rightarrow> string) \<Rightarrow> nat \<Rightarrow> string \<Rightarrow> nat \<Rightarrow> Orchestrator \<Rightarrow> Orchestrator" where
  "tryDependent gen now workflowId i self =
     (case activeWorkflows self workflowId of
        None \<Rightarrow> self
      | Some workflow \<Rightarrow>
          if areStepDependenciesMet workflow (w_steps workflow ! i)
          then commit workflowId
                 (executeWorkflowStep gen now (agents self) i (workflow, [], uuidCalls self)) self
          else self)"

fun fanOutToEnd ::
  "(nat \<Rightarrow> string) \<Rightarrow> nat \<Rightarrow> string \<Rightarrow> nat list \<Rightarrow> Orchestrator \<Rightarrow> Orchestrator" where
  "fanOutToEnd gen now workflowId [] self = completeIfDone now workflowId self"
| "fanOutToEnd gen now workflowId (i # rest) self =
     fanOutToEnd gen now workflowId rest (tryDependent gen now workflowId i self)"

definition handleTaskResult_begin ::
  "(nat \<Rightarrow> string) \<Rightarrow> nat \<Rightarrow> AgentResult \<Rightarrow> Orchestrator
    \<Rightarrow> Orchestrator \<times> nat list option" where
  "handleTaskResult_begin gen now result self =
     (if falsy (r_workflowId result) \<or> falsy (r_stepId result) then (self, None)
      else
        (case activeWorkflows self (the (r_workflowId result)) of
           None \<Rightarrow> (self, None)
         | Some workflow \<Rightarrow>
             (case findIndex (\<lambda>s. s_id s = the (r_stepId result)) (w_steps workflow) of
                None \<Rightarrow> (self, None)
              | Some k \<Rightarrow>
                  (let wf1 = recordResult k result workflow;
                       stepId = s_id (w_steps wf1 ! k);
                       dependentSteps =
                         filter (\<lambda>i. stepId \<in> set (s_dependsOn (w_steps wf1 ! i))
                                      \<and> s_status (w_steps wf1 ! i) = PENDING)
                           [0..<length (w_steps wf1)];
                       recorded = commit (the (r_workflowId result)) (wf1, [], uuidCalls self) self
                   in if r_success result
                      then fanOut gen now (the (r_workflowId result)) dependentSteps recorded
                      else (completeIfDone now (the (r_workflowId result)) recorded, None)))))"




section \<open>Auxiliary notions for the proofs\<close>

text \<open>
  \<open>onlyStatusChanged w w'\<close>: \<open>w'\<close> is \<open>w\<close> except for the \<open>status\<close> fields of its steps.
  This is all \<open>executeWorkflowStep\<close> may change in a workflow.
\<close>

definition onlyStatusChanged :: "Workflow \<Rightarrow> Workflow \<Rightarrow> bool" where
  "onlyStatusChanged w w' \<longleftrightarrow>
     w' = w\<lparr>w_steps := w_steps w'\<rparr> \<and> length (w_steps w') = length (w_steps w) \<and>
     (\<forall>j < length (w_steps w).
        w_steps w' ! j = (w_steps w ! j)\<lparr>s_status := s_status (w_steps w' ! j)\<rparr>)"

text \<open>
  \<open>dependenciesCompleted w step\<close>: every id in \<open>step.dependsOn\<close> names a step of \<open>w\<close>
  whose status is completed.
\<close>

definition dependenciesCompleted :: "Workflow \<Rightarrow> WorkflowStep \<Rightarrow> bool" where
  "dependenciesCompleted w step \<longleftrightarrow>
     (\<forall>d \<in> set (s_dependsOn step).
        \<exists>s \<in> set (w_steps w). s_id s = d \<and> s_status s = COMPLETED)"

text \<open>The invariant of the data model: \<open>completedAt\<close> is set iff the status is terminal.\<close>

definition completedAtIffTerminal :: "Workflow \<Rightarrow> bool" where
  "completedAtIffTerminal w \<longleftrightarrow>
     (w_completedAt w \<noteq> None) = (w_status w = WF_completed \<or> w_status w = WF_failed)"

text \<open>What cancellation makes of a step status.\<close>

fun cancelledStatus :: "WorkflowStepStatus \<Rightarrow> WorkflowStepStatus" where
  "cancelledStatus IN_PROGRESS = FAILED"
| "cancelledStatus PENDING = SKIPPED"
| "cancelledStatus COMPLETED = COMPLETED"
| "cancelledStatus FAILED = FAILED"
| "cancelledStatus SKIPPED = SKIPPED"

text \<open>
  \<open>reopens ev wid\<close>: the event is a start, pause or resume of workflow \<open>wid\<close>; these
  methods assign the workflow's status without looking at it.
\<close>

definition reopens :: "OrchestratorEvent \<Rightarrow> string \<Rightarrow> bool" where
  "reopens ev wid \<longleftrightarrow>
     ev = WorkflowStart wid \<or> ev = WorkflowPause wid \<or> ev = WorkflowResume wid"

text \<open>
  \<open>reopensStamped ev self\<close>: the event is a start, pause or resume of a stored workflow
  whose \<open>completedAt\<close> is set. \<open>neverReopens gen events self\<close>: no event of the sequence
  is one, at the time it is handled.
\<close>

definition stamped :: "Orchestrator \<Rightarrow> string \<Rightarrow> bool" where
  "stamped self wid \<longleftrightarrow>
     (case activeWorkflows self wid of None \<Rightarrow> False | Some w \<Rightarrow> w_completedAt w \<noteq> None)"

definition reopensStamped :: "OrchestratorEvent \<Rightarrow> Orchestrator \<Rightarrow> bool" where
  "reopensStamped ev self \<longleftrightarrow>
     (case ev of
        WorkflowStart wid \<Rightarrow> stamped self wid
      | WorkflowPause wid \<Rightarrow> stamped self wid
      | WorkflowResume wid \<Rightarrow> stamped self wid
      | _ \<Rightarrow> False)"

fun neverReopens ::
  "(nat \<Rightarrow> string) \<Rightarrow> (nat \<times> OrchestratorEvent) list \<Rightarrow> Orchestrator \<Rightarrow> bool" where
  "neverReopens gen [] self = True"
| "neverReopens gen ((now, ev) # rest) self =
     (\<not> reopensStamped ev self \<and> neverReopens gen rest (deliver gen now ev self))"




text \<open>\<open>isFinished w\<close>: the workflow's status is completed or failed.\<close>

definition isFinished :: "Workflow \<Rightarrow> bool" where
  "isFinished w \<longleftrightarrow> w_status w = WF_completed \<or> w_status w = WF_failed"

text \<open>The event that dispatches \<open>step\<close> of workflow \<open>w\<close> as the task with id \<open>uuid\<close>.\<close>

definition taskEvent :: "nat \<Rightarrow> Workflow \<Rightarrow> WorkflowStep \<Rightarrow> string \<Rightarrow> Event" where
  "taskEvent now w step uuid =
     (''task:'' @ agentTypeValue (s_agentType step), TaskEvent (buildTask uuid now w step))"


section \<open>An example run\<close>

text \<open>
  An orchestrator is constructed and initialised on an empty bus. A workflow \<open>wf1\<close> with
  steps \<open>a\<close>, \<open>b\<close> (after \<open>a\<close>) and \<open>c\<close> (after \<open>a\<close>) is created and started, then cancelled,
  then resumed.
\<close>

definition demo_rnd :: "AgentType \<Rightarrow> string" where
  "demo_rnd t = ''agent-'' @ agentTypeValue t"

definition demo_gen :: "nat \<Rightarrow> string" where
  "demo_gen n = ''uuid-'' @ replicate n (CHR ''i'')"

definition demo_orchestrator :: Orchestrator where
  "demo_orchestrator =
     newWorkflowOrchestratorAgent ''orch'' ''Workflow Orchestrator'' ''Coordinates tasks''"

definition demo_ready :: "Orchestrator \<times> AgentEventBus" where
  "demo_ready = projr (orchestrator_initialize demo_rnd demo_orchestrator [])"

definition demo_step :: "string \<Rightarrow> AgentType \<Rightarrow> string list \<Rightarrow> StepDefinition" where
  "demo_step ident type deps =
     \<lparr> sd_id = Some ident, sd_name = ident, sd_agentType = type, sd_action = ''run'',
       sd_config = None, sd_dependsOn = Some deps \<rparr>"

definition demo_definition :: WorkflowDefinition where
  "demo_definition =
     \<lparr> d_id = Some ''wf1'', d_name = ''Onboarding'', d_description = ''demo'',
       d_steps = [demo_step ''a'' CUSTOMER_SERVICE [], demo_step ''b'' DOCUMENT [''a''],
                  demo_step ''c'' BILLING [''a'']],
       d_data = None \<rparr>"

definition demo_created :: Orchestrator where
  "demo_created = deliver demo_gen 1 (WorkflowCreate demo_definition) (fst demo_ready)"

definition demo_started :: Orchestrator where
  "demo_started = deliver demo_gen 2 (WorkflowStart ''wf1'') demo_created"

definition demo_cancelled :: Orchestrator where
  "demo_cancelled = deliver demo_gen 3 (WorkflowCancel ''wf1'') demo_started"

definition demo_resumed :: Orchestrator where
  "demo_resumed = deliver demo_gen 4 (WorkflowResume ''wf1'') demo_cancelled"

text \<open>A result for step \<open>sid\<close> of workflow \<open>wid\<close>, as a handler would correlate it.\<close>

definition demo_result :: "string \<Rightarrow> string \<Rightarrow> bool \<Rightarrow> AgentResult" where
  "demo_result wid sid ok =
     \<lparr> r_taskId = ''uuid-'', r_success = ok, r_data = [],
       r_error = (if ok then None else Some ''boom''), r_completedAt = 5,
       r_workflowId = Some wid, r_stepId = Some sid \<rparr>"

text \<open>A task as the orchestrator dispatches it, with id \<open>task-1\<close>.\<close>

definition demo_task :: AgentTask where
  "demo_task = buildTask ''task-1'' 2 (the (activeWorkflows demo_started ''wf1''))
                 (hd (w_steps (the (activeWorkflows demo_started ''wf1''))))"

text \<open>A workflow \<open>wf2\<close> with the single step \<open>a\<close>, run to completion.\<close>

definition demo_solo_definition :: WorkflowDefinition where
  "demo_solo_definition =
     \<lparr> d_id = Some ''wf2'', d_name = ''Solo'', d_description = ''demo'',
       d_steps = [demo_step ''a'' SCHEDULING []], d_data = None \<rparr>"

definition demo_solo_completed :: Orchestrator where
  "demo_solo_completed =
     deliver demo_gen 5 (TaskResult (demo_result ''wf2'' ''a'' True))
       (deliver demo_gen 2 (WorkflowStart ''wf2'')
          (deliver demo_gen 1 (WorkflowCreate demo_solo_definition) (fst demo_ready)))"

text \<open>A workflow \<open>wf3\<close> whose only step is of type \<open>workflow\<close>.\<close>

definition demo_meta_definition :: WorkflowDefinition where
  "demo_meta_definition =
     \<lparr> d_id = Some ''wf3'', d_name = ''Meta'', d_description = ''demo'',
       d_steps = [demo_step ''m'' WORKFLOW []], d_data = None \<rparr>"

definition demo_meta_created :: Orchestrator where
  "demo_meta_created = deliver demo_gen 1 (WorkflowCreate demo_meta_definition) (fst demo_ready)"

text \<open>The successful result for step \<open>a\<close> of \<open>wf1\<close> arrives after the start.\<close>

definition demo_a_done :: Orchestrator where
  "demo_a_done = deliver demo_gen 5 (TaskResult (demo_result ''wf1'' ''a'' True)) demo_started"

text \<open>A second result for step \<open>a\<close> of the completed \<open>wf2\<close>, this time a failure.\<close>

definition demo_solo_failed_late :: Orchestrator where
  "demo_solo_failed_late =
     deliver demo_gen 6 (TaskResult (demo_result ''wf2'' ''a'' False)) demo_solo_completed"


text \<open>
  A workflow \<open>wf4\<close> with three steps without dependencies, the second of type
  \<open>workflow\<close>.
\<close>

definition demo_trio_definition :: WorkflowDefinition where
  "demo_trio_definition =
     \<lparr> d_id = Some ''wf4'', d_name = ''Trio'', d_description = ''demo'',
       d_steps = [demo_step ''x'' BILLING [], demo_step ''m'' WORKFLOW [],
                  demo_step ''y'' DOCUMENT []],
       d_data = None \<rparr>"

definition demo_trio_created :: Orchestrator where
  "demo_trio_created = deliver demo_gen 1 (WorkflowCreate demo_trio_definition) (fst demo_ready)"

text \<open>
  The initialised bus with one more listener: a synchronous callback on \<open>result:task-1\<close>
  that throws. The customer-service agent as \<open>initialize\<close> creates it.
\<close>

definition demo_observed_bus :: AgentEventBus where
  "demo_observed_bus =
     subscribeToEvent ''result:task-1''
       (L_external ''observer'' (Some (Error ''observer failed''))) (snd demo_ready)"

definition demo_agent :: BaseAgent where
  "demo_agent = the (agents (fst demo_ready) CUSTOMER_SERVICE)"

text \<open>
  The start of \<open>wf4\<close> up to its first suspension, then the cancel event, then the
  suspended loop going on with its two remaining steps.
\<close>

definition demo_trio_cancelled_midway :: Orchestrator where
  "demo_trio_cancelled_midway =
     (case startWorkflow_begin demo_gen 2 ''wf4'' demo_trio_created of
        (err, suspended, rest) \<Rightarrow>
          fold (tryNextStep demo_gen 2 ''wf4'') rest
            (deliver demo_gen 2 (WorkflowCancel ''wf4'') suspended))"

text \<open>The events that lead to \<open>demo_cancelled\<close>, with their times.\<close>

definition demo_events :: "(nat \<times> OrchestratorEvent) list" where
  "demo_events =
     [(1, WorkflowCreate demo_definition), (2, WorkflowStart ''wf1''),
      (3, WorkflowCancel ''wf1'')]"


section \<open>Evaluation of the example\<close>

lemmas demo_defs = demo_rnd_def demo_gen_def demo_orchestrator_def demo_ready_def demo_step_def
  demo_definition_def demo_created_def demo_started_def demo_cancelled_def demo_resumed_def
  demo_result_def demo_task_def demo_solo_definition_def demo_solo_completed_def
  demo_meta_definition_def demo_meta_created_def

lemmas model_defs = orchestrator_initialize_def AgentType_values_def
  createSpecializedAgent_def agent_initialize_def subscribeToEvent_def orElse_def
  newWorkflowOrchestratorAgent_def createWorkflow_def orUuid_def
  startWorkflow_def pauseWorkflow_def resumeWorkflow_def cancelWorkflow_def cancelSteps_def
  commit_def executeWorkflowStep_def areStepDependenciesMet_def setStepStatus_def buildTask_def
  handleTaskResult_def falsy_def recordResult_def checkCompleted_def dispatchDependent_def
  isTerminal_def

lemma demo_bus:
  "snd demo_ready =
     [(''task:customer_service'', L_handleTask ''agent-customer_service''),
      (''task:scheduling'', L_handleTask ''agent-scheduling''),
      (''task:billing'', L_handleTask ''agent-billing''),
      (''task:document'', L_handleTask ''agent-document''),
      (''workflow:create'', L_createWorkflow ''orch''),
      (''workflow:start'', L_startWorkflow ''orch''),
      (''workflow:pause'', L_pauseWorkflow ''orch''),
      (''workflow:resume'', L_resumeWorkflow ''orch''),
      (''workflow:cancel'', L_cancelWorkflow ''orch''),
      (''result:*'', L_handleTaskResult ''orch'')]"
  by (simp add: demo_defs model_defs)

section \<open>Event channel\<close>

text \<open>
  A listener registered under one name is invoked by a publish to another name only if
  it is also registered under that other name: the orchestrator's \<open>result:*\<close>
  subscription is an ordinary event name.
\<close>

lemma publishEvent_subscribed:
  "cb \<in> set (publishEvent eventName bus) \<longleftrightarrow> (eventName, cb) \<in> set bus"
  by (force simp: publishEvent_def)

lemma demo_task_id: "t_id demo_task = ''task-1''"
  by (simp add: demo_task_def buildTask_def)

text \<open>
  C1. The claim is that the orchestrator's \<open>result:*\<close> subscriber is invoked for every
  result a handler publishes to \<open>result:<taskId>\<close>. On the initialised bus, the handler
  that receives the task with id \<open>task-1\<close> publishes exactly one event, to \<open>result:task-1\<close>,
  and that publish invokes no listener at all; the orchestrator's \<open>handleTaskResult\<close> is
  invoked only by a publish to the literal name \<open>result:*\<close>.
\<close>

theorem result_publish_invokes_no_listener:
  "map fst (fst (snd (handleTask (specialized_execute CUSTOMER_SERVICE 3) (snd demo_ready) 3
                        demo_task agent)))
     = [''result:task-1'']
   \<and> publishEvent ''result:task-1'' (snd demo_ready) = []
   \<and> publishEvent ''result:*'' (snd demo_ready) = [L_handleTaskResult ''orch'']"
  by (simp add: handleTask_def specialized_execute_def demo_task_id demo_bus publishEvent_def
                publishThrows_def)

section \<open>Specialized handler\<close>

text \<open>
  When the publish of the result does not throw, \<open>handleTask\<close> publishes once, whatever
  \<open>execute\<close> does: the result of \<open>execute\<close>, or the error result for what it threw.
\<close>

lemma handleTask_publishes_once:
  assumes "publishThrows (''result:'' @ t_id task) bus = None"
  shows "handleTask execute bus now task agent =
           (agent\<lparr>a_status := IDLE\<rparr>,
            [(''result:'' @ t_id task,
              (case execute task of Inr result \<Rightarrow> result
               | Inl error \<Rightarrow> errorResult now task error))],
            None)"
  using assms by (simp add: handleTask_def Let_def split: sum.splits)

text \<open>No listener of this repository throws into \<open>emit\<close>.\<close>

lemma publishThrows_no_external:
  assumes "\<forall>entry \<in> set bus. listenerThrows (snd entry) = None"
  shows "publishThrows eventName bus = None"
proof -
  have "filter (\<lambda>callback. listenerThrows callback \<noteq> None) (publishEvent eventName bus) = []"
    using assms by (auto simp: publishEvent_def filter_empty_conv)
  then show ?thesis by (simp add: publishThrows_def)
qed

lemma demo_bus_never_throws: "publishThrows eventName (snd demo_ready) = None"
  by (rule publishThrows_no_external) (simp add: demo_bus listenerThrows_def)

lemma demo_observed_bus_throws:
  "publishThrows ''result:task-1'' demo_observed_bus = Some (Error ''observer failed'')"
  by (simp add: demo_observed_bus_def subscribeToEvent_def demo_bus publishThrows_def
                publishEvent_def listenerThrows_def)

text \<open>
  C7. The claim is that handling a task results in exactly one publish to the topic
  \<open>result:<task.id>\<close>, never more. On a bus where a synchronous listener of
  \<open>result:task-1\<close> throws, the handler of the task \<open>task-1\<close>, whose \<open>execute\<close> returns a
  successful result, publishes twice to that topic: first the successful result, inside
  the \<open>try\<close> block, and then, from the \<open>catch\<close> block, a result with \<open>success = false\<close>
  that carries the listener's message.
\<close>

theorem throwing_listener_gets_two_results:
  "fst (snd (handleTask (specialized_execute CUSTOMER_SERVICE 3) demo_observed_bus 3
               demo_task demo_agent))
     = [(''result:task-1'', projr (specialized_execute CUSTOMER_SERVICE 3 demo_task)),
        (''result:task-1'', errorResult 3 demo_task (Error ''observer failed''))]
   \<and> r_success (projr (specialized_execute CUSTOMER_SERVICE 3 demo_task))
   \<and> r_success (errorResult 3 demo_task (Error ''observer failed'')) = False
   \<and> r_error (errorResult 3 demo_task (Error ''observer failed'')) = Some ''observer failed''"
  by (simp add: handleTask_def Let_def demo_task_id demo_observed_bus_throws
                specialized_execute_def errorResult_def)

section \<open>Workflow store lookups\<close>

lemma findIndex_None: "findIndex P xs = None \<longleftrightarrow> (\<forall>x\<in>set xs. \<not> P x)"
  by (induction xs) auto

lemma findIndex_Some:
  "findIndex P xs = Some k \<Longrightarrow> k < length xs \<and> P (xs ! k) \<and> (\<forall>j<k. \<not> P (xs ! j))"
proof (induction xs arbitrary: k)
  case Nil
  then show ?case by simp
next
  case (Cons x xs)
  show ?case
  proof (cases "P x")
    case True
    with Cons.prems show ?thesis by simp
  next
    case False
    with Cons.prems obtain k' where k': "findIndex P xs = Some k'" "k = Suc k'"
      by auto
    from Cons.IH[OF k'(1)] False k'(2) show ?thesis
      by (auto simp: less_Suc_eq_0_disj)
  qed
qed

section \<open>The example, evaluated\<close>

lemma demo_created_wf1:
  "activeWorkflows demo_created ''wf1'' =
     Some \<lparr> w_id = ''wf1'', w_name = ''Onboarding'', w_description = ''demo'',
            w_steps =
              [\<lparr> s_id = ''a'', s_name = ''a'', s_agentType = CUSTOMER_SERVICE, s_action = ''run'',
                 s_status = PENDING, s_config = [], s_dependsOn = [], s_result = None \<rparr>,
               \<lparr> s_id = ''b'', s_name = ''b'', s_agentType = DOCUMENT, s_action = ''run'',
                 s_status = PENDING, s_config = [], s_dependsOn = [''a''], s_result = None \<rparr>,
               \<lparr> s_id = ''c'', s_name = ''c'', s_agentType = BILLING, s_action = ''run'',
                 s_status = PENDING, s_config = [], s_dependsOn = [''a''], s_result = None \<rparr>],
            w_data = [], w_status = WF_active, w_createdAt = 1, w_updatedAt = 1,
            w_completedAt = None \<rparr>"
  by (simp add: demo_defs model_defs)

lemma demo_started_wf1:
  "activeWorkflows demo_started ''wf1'' =
     Some \<lparr> w_id = ''wf1'', w_name = ''Onboarding'', w_description = ''demo'',
            w_steps =
              [\<lparr> s_id = ''a'', s_name = ''a'', s_agentType = CUSTOMER_SERVICE, s_action = ''run'',
                 s_status = IN_PROGRESS, s_config = [], s_dependsOn = [], s_result = None \<rparr>,
               \<lparr> s_id = ''b'', s_name = ''b'', s_agentType = DOCUMENT, s_action = ''run'',
                 s_status = PENDING, s_config = [], s_dependsOn = [''a''], s_result = None \<rparr>,
               \<lparr> s_id = ''c'', s_name = ''c'', s_agentType = BILLING, s_action = ''run'',
                 s_status = PENDING, s_config = [], s_dependsOn = [''a''], s_result = None \<rparr>],
            w_data = [], w_status = WF_active, w_createdAt = 1, w_updatedAt = 2,
            w_completedAt = None \<rparr>"
  by (simp add: demo_defs model_defs)

lemma demo_created_unknown: "activeWorkflows demo_created ''nope'' = None"
  by (simp add: demo_defs model_defs)

section \<open>Cancellation\<close>

lemma cancelSteps_map:
  "cancelSteps steps = map (\<lambda>s. s\<lparr>s_status := cancelledStatus (s_status s)\<rparr>) steps"
proof -
  have "(if s_status (if s_status s = IN_PROGRESS then s\<lparr>s_status := FAILED\<rparr> else s) = PENDING
         then (if s_status s = IN_PROGRESS then s\<lparr>s_status := FAILED\<rparr> else s)\<lparr>s_status := SKIPPED\<rparr>
         else (if s_status s = IN_PROGRESS then s\<lparr>s_status := FAILED\<rparr> else s))
        = s\<lparr>s_status := cancelledStatus (s_status s)\<rparr>" for s :: WorkflowStep
    by (cases "s_status s") simp_all
  then show ?thesis
    by (simp add: cancelSteps_def comp_def)
qed

text \<open>
  C5. Cancelling a stored workflow reports no failure, sets the workflow's status to
  failed and its completion timestamp to the current time, turns every in-progress step
  to failed and every pending step to skipped, leaves every other step (completed,
  failed, skipped) as it is, changes nothing else in a step, and publishes one
  \<open>workflow:cancelled\<close> event carrying the workflow's id.
\<close>

theorem cancelWorkflow_effect:
  assumes "activeWorkflows self workflowId = Some w"
  shows "cancelWorkflow now workflowId self =
           (None,
            self\<lparr> activeWorkflows := (activeWorkflows self)
                     (workflowId \<mapsto>
                        w\<lparr> w_status := WF_failed, w_updatedAt := now, w_completedAt := Some now,
                           w_steps := map (\<lambda>s. s\<lparr>s_status := cancelledStatus (s_status s)\<rparr>)
                                        (w_steps w) \<rparr>),
                  published := published self
                    @ [(''workflow:cancelled'', WorkflowEvent (w_id w))] \<rparr>)"
  using assms by (simp add: cancelWorkflow_def commit_def cancelSteps_map)

theorem cancelWorkflow_effect_witness:
  "map s_status (w_steps (the (activeWorkflows demo_started ''wf1'')))
     = [IN_PROGRESS, PENDING, PENDING]
   \<and> fst (cancelWorkflow 3 ''wf1'' demo_started) = None
   \<and> map s_status (w_steps (the (activeWorkflows (snd (cancelWorkflow 3 ''wf1'' demo_started)) ''wf1'')))
     = [FAILED, SKIPPED, SKIPPED]
   \<and> w_status (the (activeWorkflows (snd (cancelWorkflow 3 ''wf1'' demo_started)) ''wf1'')) = WF_failed
   \<and> w_completedAt (the (activeWorkflows (snd (cancelWorkflow 3 ''wf1'' demo_started)) ''wf1'')) = Some 3
   \<and> last (published (snd (cancelWorkflow 3 ''wf1'' demo_started)))
     = (''workflow:cancelled'', WorkflowEvent ''wf1'')"
  using cancelWorkflow_effect[OF demo_started_wf1, of 3]
  by (simp add: demo_started_wf1)

section \<open>Unknown workflow ids\<close>

text \<open>
  Each of start, pause, resume and cancel, called with a workflow id that is not in the
  store, throws \<open>Workflow not found: <id>\<close> before it changes anything: the promise it
  returns is rejected, and the orchestrator is as it was.
\<close>

lemma unknown_workflow_rejected:
  assumes "activeWorkflows self workflowId = None"
  shows "startWorkflow gen now workflowId self = (Some (notFound workflowId), self)
       \<and> pauseWorkflow now workflowId self = (Some (notFound workflowId), self)
       \<and> resumeWorkflow gen now workflowId self = (Some (notFound workflowId), self)
       \<and> cancelWorkflow now workflowId self = (Some (notFound workflowId), self)"
  using assms
  by (simp add: startWorkflow_def pauseWorkflow_def resumeWorkflow_def cancelWorkflow_def)

text \<open>
  Through \<open>execute\<close>, the throw of \<open>startWorkflow\<close> for an unknown id is caught: the caller
  gets a result with \<open>success = false\<close> and the message, and the store is unchanged.
\<close>

lemma orchestrator_execute_reports_unknown_workflow:
  assumes "t_type task = ''execute_workflow''"
      and "map_of (t_data task) ''workflowId'' = Some (JString workflowId)"
      and "activeWorkflows self workflowId = None"
  shows "orchestrator_execute hc hu gen now task self
           = (errorResult now task (notFound workflowId), self\<lparr>o_status := IDLE\<rparr>)"
  using assms
  by (simp add: orchestrator_execute_def handleExecuteWorkflow_def startWorkflow_def Let_def)

text \<open>
  C6. The claim is that a lifecycle operation on a workflow id that is not in the store
  fails as a failure reported to its caller, with no exception past the orchestrator's
  boundary and the store unchanged. The orchestrator is indeed left as it was. But the
  four methods throw, and on the bus, which is the only way to reach pause, resume and
  cancel, nobody holds the promise that the throw rejects: for each of the four events
  with the unknown id \<open>nope\<close>, the failure \<open>Workflow not found: nope\<close> is an unhandled
  rejection, reported to no caller.
\<close>

theorem unknown_workflow_rejection_unhandled:
  "activeWorkflows demo_created ''nope'' = None
   \<and> unhandledRejection demo_gen 2 (WorkflowStart ''nope'') demo_created
       = Some (Error ''Workflow not found: nope'')
   \<and> unhandledRejection demo_gen 2 (WorkflowPause ''nope'') demo_created
       = Some (Error ''Workflow not found: nope'')
   \<and> unhandledRejection demo_gen 2 (WorkflowResume ''nope'') demo_created
       = Some (Error ''Workflow not found: nope'')
   \<and> unhandledRejection demo_gen 2 (WorkflowCancel ''nope'') demo_created
       = Some (Error ''Workflow not found: nope'')
   \<and> deliver demo_gen 2 (WorkflowStart ''nope'') demo_created = demo_created
   \<and> deliver demo_gen 2 (WorkflowPause ''nope'') demo_created = demo_created
   \<and> deliver demo_gen 2 (WorkflowResume ''nope'') demo_created = demo_created
   \<and> deliver demo_gen 2 (WorkflowCancel ''nope'') demo_created = demo_created"
  by (simp add: unhandledRejection_def demo_created_unknown notFound_def
                startWorkflow_def pauseWorkflow_def resumeWorkflow_def cancelWorkflow_def)

section \<open>Results that do not resolve\<close>

lemma handleTaskResult_unknown_step:
  assumes "r_workflowId result = Some wid" "r_stepId result = Some sid"
      and "activeWorkflows self wid = Some w"
      and "\<forall>s\<in>set (w_steps w). s_id s \<noteq> sid"
  shows "handleTaskResult gen now result self = self"
proof -
  have "findIndex (\<lambda>s. s_id s = sid) (w_steps w) = None"
    using assms(4) by (simp add: findIndex_None)
  with assms(1-3) show ?thesis
    by (simp add: handleTaskResult_def)
qed

text \<open>
  C8. A result that lacks a workflow id or a step id (undefined, or the empty string,
  which JavaScript also treats as absent), or whose workflow id is not in the store, or
  whose step id is the id of no step of that workflow, is ignored: \<open>handleTaskResult\<close>
  returns the orchestrator unchanged, so the store is unchanged and nothing (no task in
  particular) is published; the method has no failing branch.
\<close>

theorem unresolved_result_ignored:
  assumes "falsy (r_workflowId result) \<or> falsy (r_stepId result)
     \<or> (\<exists>wid. r_workflowId result = Some wid \<and> activeWorkflows self wid = None)
     \<or> (\<exists>wid sid w. r_workflowId result = Some wid \<and> r_stepId result = Some sid
            \<and> activeWorkflows self wid = Some w \<and> (\<forall>s\<in>set (w_steps w). s_id s \<noteq> sid))"
  shows "handleTaskResult gen now result self = self"
proof -
  from assms consider
      (uncorrelated) "falsy (r_workflowId result) \<or> falsy (r_stepId result)"
    | (no_workflow) wid where "r_workflowId result = Some wid" "activeWorkflows self wid = None"
    | (no_step) wid sid w where "r_workflowId result = Some wid" "r_stepId result = Some sid"
        "activeWorkflows self wid = Some w" "\<forall>s\<in>set (w_steps w). s_id s \<noteq> sid"
    by blast
  then show ?thesis
  proof cases
    case uncorrelated
    then show ?thesis by (simp add: handleTaskResult_def)
  next
    case no_workflow
    then show ?thesis by (simp add: handleTaskResult_def)
  next
    case no_step
    then show ?thesis by (rule handleTaskResult_unknown_step)
  qed
qed

theorem unresolved_result_ignored_witness:
  "handleTaskResult demo_gen 5 ((demo_result ''wf1'' ''a'' True)\<lparr>r_workflowId := None\<rparr>) demo_started
     = demo_started
   \<and> handleTaskResult demo_gen 5 ((demo_result ''wf1'' ''a'' True)\<lparr>r_stepId := None\<rparr>) demo_started
     = demo_started
   \<and> handleTaskResult demo_gen 5 (demo_result ''nope'' ''a'' True) demo_started = demo_started
   \<and> handleTaskResult demo_gen 5 (demo_result ''wf1'' ''z'' True) demo_started = demo_started"
proof -
  have 1: "falsy (r_workflowId ((demo_result ''wf1'' ''a'' True)\<lparr>r_workflowId := None\<rparr>))"
    by (simp add: falsy_def)
  have 2: "falsy (r_stepId ((demo_result ''wf1'' ''a'' True)\<lparr>r_stepId := None\<rparr>))"
    by (simp add: falsy_def)
  have 3: "r_workflowId (demo_result ''nope'' ''a'' True) = Some ''nope''
           \<and> activeWorkflows demo_started ''nope'' = None"
    by (simp add: demo_defs model_defs)
  have 4: "r_workflowId (demo_result ''wf1'' ''z'' True) = Some ''wf1''
           \<and> r_stepId (demo_result ''wf1'' ''z'' True) = Some ''z''
           \<and> activeWorkflows demo_started ''wf1'' = Some (the (activeWorkflows demo_started ''wf1''))
           \<and> (\<forall>s\<in>set (w_steps (the (activeWorkflows demo_started ''wf1''))). s_id s \<noteq> ''z'')"
    by (simp add: demo_started_wf1 demo_result_def)
  show ?thesis
    using unresolved_result_ignored[of "(demo_result ''wf1'' ''a'' True)\<lparr>r_workflowId := None\<rparr>"
            demo_started demo_gen 5]
          unresolved_result_ignored[of "(demo_result ''wf1'' ''a'' True)\<lparr>r_stepId := None\<rparr>"
            demo_started demo_gen 5]
          unresolved_result_ignored[of "demo_result ''nope'' ''a'' True" demo_started demo_gen 5]
          unresolved_result_ignored[of "demo_result ''wf1'' ''z'' True" demo_started demo_gen 5]
          1 2 3 4
    by blast
qed

section \<open>Step execution\<close>

lemma onlyStatusChanged_refl: "onlyStatusChanged w w"
  by (simp add: onlyStatusChanged_def)

lemma onlyStatusChanged_trans:
  assumes "onlyStatusChanged a b" "onlyStatusChanged b c"
  shows "onlyStatusChanged a c"
proof -
  have top: "c = a\<lparr>w_steps := w_steps c\<rparr>"
  proof -
    have "c = b\<lparr>w_steps := w_steps c\<rparr>" using assms(2) by (simp add: onlyStatusChanged_def)
    moreover have "b = a\<lparr>w_steps := w_steps b\<rparr>" using assms(1) by (simp add: onlyStatusChanged_def)
    ultimately have "c = (a\<lparr>w_steps := w_steps b\<rparr>)\<lparr>w_steps := w_steps c\<rparr>" by simp
    then show ?thesis by simp
  qed
  have len: "length (w_steps c) = length (w_steps a)"
    using assms by (simp add: onlyStatusChanged_def)
  have steps: "w_steps c ! j = (w_steps a ! j)\<lparr>s_status := s_status (w_steps c ! j)\<rparr>"
    if "j < length (w_steps a)" for j
  proof -
    have jb: "j < length (w_steps b)" using that assms(1) by (simp add: onlyStatusChanged_def)
    have "w_steps c ! j = (w_steps b ! j)\<lparr>s_status := s_status (w_steps c ! j)\<rparr>"
      using assms(2) jb by (simp add: onlyStatusChanged_def)
    moreover have "w_steps b ! j = (w_steps a ! j)\<lparr>s_status := s_status (w_steps b ! j)\<rparr>"
      using assms(1) that by (simp add: onlyStatusChanged_def)
    ultimately have "w_steps c ! j =
        ((w_steps a ! j)\<lparr>s_status := s_status (w_steps b ! j)\<rparr>)\<lparr>s_status := s_status (w_steps c ! j)\<rparr>"
      by simp
    then show ?thesis by simp
  qed
  from top len steps show ?thesis
    unfolding onlyStatusChanged_def by blast
qed

lemma onlyStatusChanged_setStepStatus: "onlyStatusChanged w (setStepStatus i st w)"
proof -
  have "(w_steps w)[i := (w_steps w ! i)\<lparr>s_status := st\<rparr>] ! j =
        (w_steps w ! j)\<lparr>s_status := s_status ((w_steps w)[i := (w_steps w ! i)\<lparr>s_status := st\<rparr>] ! j)\<rparr>"
    if "j < length (w_steps w)" for j
    using that by (cases "j = i") simp_all
  then show ?thesis
    by (simp add: onlyStatusChanged_def setStepStatus_def)
qed

text \<open>What one call of \<open>executeWorkflowStep\<close> does: nothing, or fail the step, or dispatch it.\<close>

lemma executeWorkflowStep_cases:
  obtains (skip) "executeWorkflowStep gen now reg i (w, evs, n) = (w, evs, n)"
  | (fail) "i < length (w_steps w)" "w_status w = WF_active"
      "areStepDependenciesMet w (w_steps w ! i)" "reg (s_agentType (w_steps w ! i)) = None"
      "executeWorkflowStep gen now reg i (w, evs, n) = (setStepStatus i FAILED w, evs, n)"
  | (dispatch) "i < length (w_steps w)" "w_status w = WF_active"
      "areStepDependenciesMet w (w_steps w ! i)" "reg (s_agentType (w_steps w ! i)) \<noteq> None"
      "executeWorkflowStep gen now reg i (w, evs, n) =
         (setStepStatus i IN_PROGRESS w,
          evs @ [(''task:'' @ agentTypeValue (s_agentType (w_steps w ! i)),
                  TaskEvent (buildTask (gen n) now w (w_steps w ! i)))],
          Suc n)"
proof (cases "i < length (w_steps w) \<and> w_status w = WF_active
                \<and> areStepDependenciesMet w (w_steps w ! i)")
  case False
  then have "executeWorkflowStep gen now reg i (w, evs, n) = (w, evs, n)"
    by (auto simp: executeWorkflowStep_def)
  then show ?thesis by (rule skip)
next
  case True
  show ?thesis
  proof (cases "reg (s_agentType (w_steps w ! i))")
    case None
    with True show ?thesis by (intro fail) (simp_all add: executeWorkflowStep_def)
  next
    case (Some agent)
    with True show ?thesis by (intro dispatch) (simp_all add: executeWorkflowStep_def)
  qed
qed

lemma dispatchDependent_eq:
  "dispatchDependent gen now reg i run = executeWorkflowStep gen now reg i run"
  by (cases run) (simp add: dispatchDependent_def executeWorkflowStep_def)

lemma dispatchDependent_fun_eq:
  "dispatchDependent gen now reg = executeWorkflowStep gen now reg"
  by (intro ext) (rule dispatchDependent_eq)

lemma executeWorkflowStep_onlyStatus:
  "onlyStatusChanged (fst run) (fst (executeWorkflowStep gen now reg i run))"
proof -
  obtain w evs n where run: "run = (w, evs, n)" by (cases run)
  show ?thesis unfolding run
    by (cases rule: executeWorkflowStep_cases[of gen now reg i w evs n])
       (simp_all add: onlyStatusChanged_refl onlyStatusChanged_setStepStatus)
qed

lemma executeWorkflowStep_other:
  "j \<noteq> i \<Longrightarrow> w_steps (fst (executeWorkflowStep gen now reg i run)) ! j = w_steps (fst run) ! j"
proof -
  assume ji: "j \<noteq> i"
  obtain w evs n where run: "run = (w, evs, n)" by (cases run)
  show ?thesis unfolding run
    by (cases rule: executeWorkflowStep_cases[of gen now reg i w evs n])
       (simp_all add: setStepStatus_def ji[symmetric])
qed

lemma executeWorkflowStep_status:
  "s_status (w_steps (fst (executeWorkflowStep gen now reg i run)) ! j) = s_status (w_steps (fst run) ! j)
   \<or> (j = i \<and> j < length (w_steps (fst run)) \<and> areStepDependenciesMet (fst run) (w_steps (fst run) ! j)
       \<and> s_status (w_steps (fst (executeWorkflowStep gen now reg i run)) ! j) \<in> {IN_PROGRESS, FAILED})"
proof -
  obtain w evs n where run: "run = (w, evs, n)" by (cases run)
  show ?thesis unfolding run
    by (cases rule: executeWorkflowStep_cases[of gen now reg i w evs n])
       (auto simp: setStepStatus_def nth_list_update)
qed

lemma fold_onlyStatus:
  "onlyStatusChanged (fst run) (fst (fold (executeWorkflowStep gen now reg) is run))"
proof (induction "is" arbitrary: run)
  case Nil
  show ?case by (simp add: onlyStatusChanged_refl)
next
  case (Cons i "is")
  show ?case
    using onlyStatusChanged_trans[OF executeWorkflowStep_onlyStatus Cons.IH]
    by simp
qed

lemma fold_other:
  "j \<notin> set is \<Longrightarrow>
     w_steps (fst (fold (executeWorkflowStep gen now reg) is run)) ! j = w_steps (fst run) ! j"
  by (induction "is" arbitrary: run) (simp_all add: executeWorkflowStep_other)


lemma fold_length:
  "length (w_steps (fst (fold (executeWorkflowStep gen now reg) is run))) = length (w_steps (fst run))"
  using fold_onlyStatus[of run gen now reg "is"] by (simp add: onlyStatusChanged_def)

lemma onlyStatusChanged_dependsOn:
  "onlyStatusChanged w w' \<Longrightarrow> j < length (w_steps w) \<Longrightarrow>
     s_dependsOn (w_steps w' ! j) = s_dependsOn (w_steps w ! j)
     \<and> s_id (w_steps w' ! j) = s_id (w_steps w ! j)"
proof -
  assume a: "onlyStatusChanged w w'" "j < length (w_steps w)"
  then have "w_steps w' ! j = (w_steps w ! j)\<lparr>s_status := s_status (w_steps w' ! j)\<rparr>"
    by (simp add: onlyStatusChanged_def)
  then have "s_dependsOn (w_steps w' ! j)
               = s_dependsOn ((w_steps w ! j)\<lparr>s_status := s_status (w_steps w' ! j)\<rparr>)"
        and "s_id (w_steps w' ! j) = s_id ((w_steps w ! j)\<lparr>s_status := s_status (w_steps w' ! j)\<rparr>)"
    by simp_all
  then show ?thesis by simp
qed

section \<open>Dependencies at dispatch\<close>

lemma areStepDependenciesMet_completed:
  assumes "areStepDependenciesMet w step"
  shows "dependenciesCompleted w step"
  unfolding dependenciesCompleted_def
proof
  fix d assume d: "d \<in> set (s_dependsOn step)"
  then have "s_dependsOn step \<noteq> []" by auto
  with assms d have
    "(case find (\<lambda>s. s_id s = d) (w_steps w) of None \<Rightarrow> False
      | Some dependencyStep \<Rightarrow> s_status dependencyStep = COMPLETED)"
    by (simp add: areStepDependenciesMet_def list_all_iff)
  then obtain s where s: "find (\<lambda>s. s_id s = d) (w_steps w) = Some s" "s_status s = COMPLETED"
    by (auto split: option.splits)
  from s(1) have "s \<in> set (w_steps w)" "s_id s = d"
    by (auto simp: find_Some_iff)
  with s(2) show "\<exists>s\<in>set (w_steps w). s_id s = d \<and> s_status s = COMPLETED" by blast
qed

text \<open>
  Every change of a step's status by \<open>executeWorkflowStep\<close>, and every task it
  publishes, happens under the dependency check.
\<close>

lemma executeWorkflowStep_guard:
  assumes "executeWorkflowStep gen now reg i (w, evs, n) \<noteq> (w, evs, n)"
  shows "i < length (w_steps w) \<and> w_status w = WF_active
         \<and> dependenciesCompleted w (w_steps w ! i)"
  using assms
  by (cases rule: executeWorkflowStep_cases[of gen now reg i w evs n])
     (simp_all add: areStepDependenciesMet_completed)

lemma dependenciesCompleted_transfer:
  assumes osc: "onlyStatusChanged w w'"
      and keep: "\<forall>j < length (w_steps w). s_status (w_steps w ! j) = COMPLETED
                   \<longrightarrow> s_status (w_steps w' ! j) = COMPLETED"
      and dc: "dependenciesCompleted w step"
      and deps: "s_dependsOn step' = s_dependsOn step"
  shows "dependenciesCompleted w' step'"
  unfolding dependenciesCompleted_def
proof
  fix d assume "d \<in> set (s_dependsOn step')"
  with deps dc obtain s where s: "s \<in> set (w_steps w)" "s_id s = d" "s_status s = COMPLETED"
    by (auto simp: dependenciesCompleted_def)
  then obtain j where j: "j < length (w_steps w)" "w_steps w ! j = s"
    by (auto simp: in_set_conv_nth)
  from osc have len: "length (w_steps w') = length (w_steps w)"
    by (simp add: onlyStatusChanged_def)
  from keep j s(3) have "s_status (w_steps w' ! j) = COMPLETED" by simp
  moreover from onlyStatusChanged_dependsOn[OF osc j(1)] j(2) s(2)
  have "s_id (w_steps w' ! j) = d" by simp
  moreover from j(1) len have "w_steps w' ! j \<in> set (w_steps w')" by simp
  ultimately show "\<exists>s\<in>set (w_steps w'). s_id s = d \<and> s_status s = COMPLETED" by blast
qed

lemma fold_keeps_completed:
  assumes "\<forall>j \<in> set is. s_status (w_steps (fst run) ! j) \<noteq> COMPLETED"
      and "s_status (w_steps (fst run) ! j) = COMPLETED"
  shows "s_status (w_steps (fst (fold (executeWorkflowStep gen now reg) is run)) ! j) = COMPLETED"
proof -
  from assms have "j \<notin> set is" by auto
  then show ?thesis using assms(2) by (simp add: fold_other)
qed

lemma executeWorkflowStep_not_completed:
  assumes "s_status (w_steps (fst run) ! j) \<noteq> COMPLETED"
  shows "s_status (w_steps (fst (executeWorkflowStep gen now reg i run)) ! j) \<noteq> COMPLETED"
  using executeWorkflowStep_status[of gen now reg i run j] assms by auto

lemma fold_dispatch_sound:
  assumes "\<forall>j \<in> set is. s_status (w_steps (fst run) ! j) \<noteq> COMPLETED"
      and "i < length (w_steps (fst run))"
      and "s_status (w_steps (fst (fold (executeWorkflowStep gen now reg) is run)) ! i) = IN_PROGRESS"
      and "s_status (w_steps (fst run) ! i) \<noteq> IN_PROGRESS"
  shows "dependenciesCompleted (fst (fold (executeWorkflowStep gen now reg) is run))
           (w_steps (fst (fold (executeWorkflowStep gen now reg) is run)) ! i)"
  using assms
proof (induction "is" arbitrary: run)
  case Nil
  then show ?case by simp
next
  case (Cons a "is")
  let ?E = "executeWorkflowStep gen now reg"
  let ?run1 = "?E a run"
  let ?final = "fold ?E is ?run1"
  have tail: "\<forall>j \<in> set is. s_status (w_steps (fst ?run1) ! j) \<noteq> COMPLETED"
    using Cons.prems(1) by (simp add: executeWorkflowStep_not_completed)
  have len1: "i < length (w_steps (fst ?run1))"
    using executeWorkflowStep_onlyStatus[of run gen now reg a] Cons.prems(2)
    by (simp add: onlyStatusChanged_def)
  show ?case
  proof (cases "s_status (w_steps (fst ?run1) ! i) = IN_PROGRESS")
    case False
    from Cons.IH[OF tail len1 _ False] Cons.prems(3) show ?thesis by simp
  next
    case True
    with Cons.prems(4) executeWorkflowStep_status[of gen now reg a run i]
    have met: "areStepDependenciesMet (fst run) (w_steps (fst run) ! i)" by auto
    have osc: "onlyStatusChanged (fst run) (fst (fold ?E (a # is) run))"
      by (rule fold_onlyStatus)
    have keep: "\<forall>j < length (w_steps (fst run)). s_status (w_steps (fst run) ! j) = COMPLETED
                  \<longrightarrow> s_status (w_steps (fst (fold ?E (a # is) run)) ! j) = COMPLETED"
      using fold_keeps_completed[OF Cons.prems(1)] by blast
    have deps: "s_dependsOn (w_steps (fst (fold ?E (a # is) run)) ! i)
                  = s_dependsOn (w_steps (fst run) ! i)"
      using onlyStatusChanged_dependsOn[OF osc Cons.prems(2)] by simp
    from dependenciesCompleted_transfer[OF osc keep areStepDependenciesMet_completed[OF met] deps]
    show ?thesis .
  qed
qed

section \<open>The store after each method\<close>

lemma commit_lookup:
  "activeWorkflows (commit key run self) wid
     = (if wid = key then Some (fst run) else activeWorkflows self wid)"
  by (cases run) (simp add: commit_def)

lemma dependenciesCompleted_steps:
  "w_steps w = w_steps w' \<Longrightarrow> dependenciesCompleted w step = dependenciesCompleted w' step"
  by (simp add: dependenciesCompleted_def)

lemma checkCompleted_steps: "w_steps (fst (checkCompleted now run)) = w_steps (fst run)"
  by (cases run) (simp add: checkCompleted_def Let_def)

lemma createSteps_pending:
  "createSteps gen defs n = (steps, n') \<Longrightarrow> s \<in> set steps \<Longrightarrow> s_status s = PENDING"
proof (induction defs arbitrary: n steps n')
  case Nil
  then show ?case by simp
next
  case (Cons d defs)
  obtain ident n1 where o: "orUuid gen (sd_id d) n = (ident, n1)"
    by (cases "orUuid gen (sd_id d) n")
  obtain rest n2 where r: "createSteps gen defs n1 = (rest, n2)"
    by (cases "createSteps gen defs n1")
  from Cons.prems(1) o r obtain first where
    steps: "steps = first # rest" and first: "s_status first = PENDING"
    by auto
  from Cons.prems(2) steps first Cons.IH[OF r] show ?case by auto
qed

lemma createWorkflow_lookup:
  assumes "activeWorkflows (createWorkflow gen now data self) wid = Some w'"
  shows "activeWorkflows self wid = Some w'
     \<or> ((\<forall>s \<in> set (w_steps w'). s_status s = PENDING)
         \<and> w_status w' = WF_active \<and> w_completedAt w' = None)"
proof -
  obtain ident n1 where o: "orUuid gen (d_id data) (uuidCalls self) = (ident, n1)"
    by (cases "orUuid gen (d_id data) (uuidCalls self)")
  obtain steps n2 where c: "createSteps gen (d_steps data) n1 = (steps, n2)"
    by (cases "createSteps gen (d_steps data) n1")
  show ?thesis
  proof (cases "wid = ident")
    case False
    with assms o c show ?thesis by (simp add: createWorkflow_def Let_def)
  next
    case True
    with assms o c have "w_steps w' = steps" "w_status w' = WF_active" "w_completedAt w' = None"
      by (auto simp: createWorkflow_def Let_def)
    with createSteps_pending[OF c] show ?thesis by simp
  qed
qed


section \<open>Dispatch paths\<close>

lemma startWorkflow_sound:
  assumes "activeWorkflows self wid = Some w"
      and "activeWorkflows (snd (startWorkflow gen now wid0 self)) wid = Some w'"
      and "s_status (w_steps w' ! i) = IN_PROGRESS"
      and "s_status (w_steps w ! i) \<noteq> IN_PROGRESS"
      and "i < length (w_steps w')"
  shows "dependenciesCompleted w' (w_steps w' ! i)"
proof (cases "wid0 = wid")
  case False
  with assms(1,2) have "w' = w"
    by (auto simp: startWorkflow_def Let_def commit_lookup split: option.splits)
  with assms(3,4) show ?thesis by simp
next
  case True
  define w1 where "w1 = w\<lparr>w_status := WF_active, w_updatedAt := now\<rparr>"
  define initialSteps where
    "initialSteps = filter (\<lambda>i. length (s_dependsOn (w_steps w1 ! i)) = 0) [0..<length (w_steps w1)]"
  let ?E = "executeWorkflowStep gen now (agents self)"
  from True assms(1,2) have w': "w' = fst (fold ?E initialSteps (w1, [], uuidCalls self))"
    by (simp add: startWorkflow_def Let_def commit_lookup w1_def initialSteps_def)
  have osc: "onlyStatusChanged w1 w'"
    unfolding w' using fold_onlyStatus[of "(w1, [], uuidCalls self)"] by simp
  then have len: "length (w_steps w') = length (w_steps w1)"
    by (simp add: onlyStatusChanged_def)
  have "i \<in> set initialSteps"
  proof (rule ccontr)
    assume "i \<notin> set initialSteps"
    then have "w_steps w' ! i = w_steps w1 ! i"
      unfolding w' by (simp add: fold_other)
    with assms(3,4) show False by (simp add: w1_def)
  qed
  then have "s_dependsOn (w_steps w1 ! i) = []" "i < length (w_steps w1)"
    by (simp_all add: initialSteps_def)
  with onlyStatusChanged_dependsOn[OF osc] have "s_dependsOn (w_steps w' ! i) = []"
    by simp
  then show ?thesis by (simp add: dependenciesCompleted_def)
qed

lemma resumeWorkflow_sound:
  assumes "activeWorkflows self wid = Some w"
      and "activeWorkflows (snd (resumeWorkflow gen now wid0 self)) wid = Some w'"
      and "s_status (w_steps w' ! i) = IN_PROGRESS"
      and "s_status (w_steps w ! i) \<noteq> IN_PROGRESS"
      and "i < length (w_steps w')"
  shows "dependenciesCompleted w' (w_steps w' ! i)"
proof (cases "wid0 = wid")
  case False
  with assms(1,2) have "w' = w"
    by (auto simp: resumeWorkflow_def Let_def commit_lookup split: option.splits)
  with assms(3,4) show ?thesis by simp
next
  case True
  define w1 where "w1 = w\<lparr>w_status := WF_active, w_updatedAt := now\<rparr>"
  define pendingSteps where
    "pendingSteps = filter (\<lambda>i. s_status (w_steps w1 ! i) = PENDING
                                 \<and> areStepDependenciesMet w1 (w_steps w1 ! i))
                      [0..<length (w_steps w1)]"
  let ?E = "executeWorkflowStep gen now (agents self)"
  let ?run = "(w1, [], uuidCalls self)"
  from True assms(1,2) have w': "w' = fst (fold ?E pendingSteps ?run)"
    by (simp add: resumeWorkflow_def Let_def commit_lookup w1_def pendingSteps_def)
  have len: "length (w_steps w') = length (w_steps w1)"
    unfolding w' by (simp add: fold_length)
  have 1: "\<forall>j \<in> set pendingSteps. s_status (w_steps (fst ?run) ! j) \<noteq> COMPLETED"
    by (simp add: pendingSteps_def)
  have 2: "i < length (w_steps (fst ?run))" using assms(5) len by simp
  have 3: "s_status (w_steps (fst (fold ?E pendingSteps ?run)) ! i) = IN_PROGRESS"
    using assms(3) w' by simp
  have 4: "s_status (w_steps (fst ?run) ! i) \<noteq> IN_PROGRESS"
    using assms(4) by (simp add: w1_def)
  from fold_dispatch_sound[OF 1 2 3 4] show ?thesis by (simp add: w')
qed

lemma handleTaskResult_sound:
  assumes "activeWorkflows self wid = Some w"
      and "activeWorkflows (handleTaskResult gen now result self) wid = Some w'"
      and "s_status (w_steps w' ! i) = IN_PROGRESS"
      and "s_status (w_steps w ! i) \<noteq> IN_PROGRESS"
      and "i < length (w_steps w')"
  shows "dependenciesCompleted w' (w_steps w' ! i)"
proof (cases "handleTaskResult gen now result self = self")
  case True
  with assms(1,2) have "w' = w" by simp
  with assms(3,4) show ?thesis by simp
next
  case False
  then obtain wid0 sid w0 k where
      r: "r_workflowId result = Some wid0" "r_stepId result = Some sid"
         "\<not> falsy (r_workflowId result)" "\<not> falsy (r_stepId result)"
    and w0: "activeWorkflows self wid0 = Some w0"
    and k: "findIndex (\<lambda>s. s_id s = sid) (w_steps w0) = Some k"
    by (auto simp: handleTaskResult_def falsy_def split: if_splits option.splits)
  define wf1 where "wf1 = recordResult k result w0"
  define dependentSteps where
    "dependentSteps = filter (\<lambda>i. s_id (w_steps wf1 ! k) \<in> set (s_dependsOn (w_steps wf1 ! i))
                                   \<and> s_status (w_steps wf1 ! i) = PENDING)
                        [0..<length (w_steps wf1)]"
  let ?E = "executeWorkflowStep gen now (agents self)"
  let ?start = "(wf1, [], uuidCalls self)"
  define run where
    "run = (if r_success result then fold ?E dependentSteps ?start else ?start)"
  have h: "handleTaskResult gen now result self = commit wid0 (checkCompleted now run) self"
    using r w0 k
    by (simp add: handleTaskResult_def Let_def wf1_def dependentSteps_def run_def
                  dispatchDependent_fun_eq)
  show ?thesis
  proof (cases "wid0 = wid")
    case False
    with assms(1,2) h have "w' = w" by (simp add: commit_lookup)
    with assms(3,4) show ?thesis by simp
  next
    case True
    with assms(1) w0 have w0w: "w0 = w" by simp
    from True assms(2) h have w': "w' = fst (checkCompleted now run)"
      by (simp add: commit_lookup)
    then have steps': "w_steps w' = w_steps (fst run)"
      by (simp add: checkCompleted_steps)
    from findIndex_Some[OF k] have klen: "k < length (w_steps w)" by (simp add: w0w)
    have len1: "length (w_steps wf1) = length (w_steps w)"
      by (simp add: wf1_def recordResult_def w0w)
    have st1: "s_status (w_steps wf1 ! i) \<noteq> IN_PROGRESS"
    proof (cases "i = k")
      case True
      with klen show ?thesis by (simp add: wf1_def recordResult_def w0w)
    next
      case False
      then have "w_steps wf1 ! i = w_steps w ! i"
        by (simp add: wf1_def recordResult_def w0w)
      with assms(4) show ?thesis by simp
    qed
    show ?thesis
    proof (cases "r_success result")
      case False
      then have "w_steps w' = w_steps wf1" using steps' by (simp add: run_def)
      with assms(3) st1 show ?thesis by simp
    next
      case True
      then have run: "run = fold ?E dependentSteps ?start" by (simp add: run_def)
      have 1: "\<forall>j \<in> set dependentSteps. s_status (w_steps (fst ?start) ! j) \<noteq> COMPLETED"
        by (simp add: dependentSteps_def)
      have "length (w_steps (fst run)) = length (w_steps wf1)"
        unfolding run by (simp add: fold_length)
      with assms(5) steps' have 2: "i < length (w_steps (fst ?start))" by simp
      have 3: "s_status (w_steps (fst (fold ?E dependentSteps ?start)) ! i) = IN_PROGRESS"
        using assms(3) steps' run by simp
      have 4: "s_status (w_steps (fst ?start) ! i) \<noteq> IN_PROGRESS" using st1 by simp
      from fold_dispatch_sound[OF 1 2 3 4]
      have "dependenciesCompleted (fst run) (w_steps (fst run) ! i)" by (simp add: run)
      with steps' dependenciesCompleted_steps[of w' "fst run"] show ?thesis by simp
    qed
  qed
qed

lemma cancelledStatus_not_in_progress: "cancelledStatus st \<noteq> IN_PROGRESS"
  by (cases st) simp_all

text \<open>
  C4. Whatever event the orchestrator handles (create, start, pause, resume, cancel or
  a task result), a step that is in progress afterwards and was not in progress before
  has, in the workflow as the handler leaves it, every id of its \<open>dependsOn\<close> naming a
  step of the same workflow whose status is completed. (Within a handler, the status is
  assigned only by \<open>executeWorkflowStep\<close>, under its dependency check at that moment:
  lemma \<open>executeWorkflowStep_guard\<close>.)
\<close>

theorem in_progress_only_with_completed_dependencies:
  assumes "activeWorkflows self wid = Some w"
      and "activeWorkflows (deliver gen now ev self) wid = Some w'"
      and "i < length (w_steps w')"
      and "s_status (w_steps w' ! i) = IN_PROGRESS"
      and "s_status (w_steps w ! i) \<noteq> IN_PROGRESS"
  shows "dependenciesCompleted w' (w_steps w' ! i)"
proof (cases ev)
  case (WorkflowCreate data)
  with assms(2) createWorkflow_lookup[of gen now data self wid w']
  have "activeWorkflows self wid = Some w' \<or> (\<forall>s \<in> set (w_steps w'). s_status s = PENDING)"
    by auto
  then show ?thesis
  proof
    assume "activeWorkflows self wid = Some w'"
    with assms(1,4,5) show ?thesis by simp
  next
    assume "\<forall>s \<in> set (w_steps w'). s_status s = PENDING"
    with assms(3) have "s_status (w_steps w' ! i) = PENDING" by simp
    with assms(4) show ?thesis by simp
  qed
next
  case (WorkflowStart wid0)
  with assms show ?thesis by (simp add: startWorkflow_sound)
next
  case (WorkflowPause wid0)
  with assms(1,2) have "w_steps w' = w_steps w"
    by (auto simp: pauseWorkflow_def commit_lookup split: option.splits if_splits)
  with assms(4,5) show ?thesis by simp
next
  case (WorkflowResume wid0)
  with assms show ?thesis by (simp add: resumeWorkflow_sound)
next
  case (WorkflowCancel wid0)
  show ?thesis
  proof (cases "wid0 = wid")
    case False
    with WorkflowCancel assms(1,2) have "w' = w"
      by (auto simp: cancelWorkflow_def commit_lookup split: option.splits)
    with assms(4,5) show ?thesis by simp
  next
    case True
    with WorkflowCancel assms(1,2)
    have "w_steps w' = map (\<lambda>s. s\<lparr>s_status := cancelledStatus (s_status s)\<rparr>) (w_steps w)"
      by (auto simp: cancelWorkflow_def commit_lookup cancelSteps_map)
    with assms(3,4) show ?thesis
      by (simp add: cancelledStatus_not_in_progress)
  qed
next
  case (TaskResult result)
  with assms show ?thesis by (simp add: handleTaskResult_sound)
qed

lemma demo_a_done_wf1:
  "activeWorkflows demo_a_done ''wf1'' =
     Some \<lparr> w_id = ''wf1'', w_name = ''Onboarding'', w_description = ''demo'',
            w_steps =
              [\<lparr> s_id = ''a'', s_name = ''a'', s_agentType = CUSTOMER_SERVICE, s_action = ''run'',
                 s_status = COMPLETED, s_config = [], s_dependsOn = [],
                 s_result = Some (demo_result ''wf1'' ''a'' True) \<rparr>,
               \<lparr> s_id = ''b'', s_name = ''b'', s_agentType = DOCUMENT, s_action = ''run'',
                 s_status = IN_PROGRESS, s_config = [], s_dependsOn = [''a''], s_result = None \<rparr>,
               \<lparr> s_id = ''c'', s_name = ''c'', s_agentType = BILLING, s_action = ''run'',
                 s_status = IN_PROGRESS, s_config = [], s_dependsOn = [''a''], s_result = None \<rparr>],
            w_data = [], w_status = WF_active, w_createdAt = 1, w_updatedAt = 2,
            w_completedAt = None \<rparr>"
  by (simp add: demo_a_done_def demo_defs model_defs)

theorem in_progress_only_with_completed_dependencies_witness:
  "map s_status (w_steps (the (activeWorkflows demo_started ''wf1'')))
     = [IN_PROGRESS, PENDING, PENDING]
   \<and> map s_status (w_steps (the (activeWorkflows demo_a_done ''wf1'')))
     = [COMPLETED, IN_PROGRESS, IN_PROGRESS]
   \<and> dependenciesCompleted (the (activeWorkflows demo_a_done ''wf1''))
        (w_steps (the (activeWorkflows demo_a_done ''wf1'')) ! 1)
   \<and> dependenciesCompleted (the (activeWorkflows demo_a_done ''wf1''))
        (w_steps (the (activeWorkflows demo_a_done ''wf1'')) ! 2)"
proof -
  have after: "activeWorkflows
      (deliver demo_gen 5 (TaskResult (demo_result ''wf1'' ''a'' True)) demo_started) ''wf1''
        = Some (the (activeWorkflows demo_a_done ''wf1''))"
    using demo_a_done_wf1 by (simp add: demo_a_done_def)
  have b: "dependenciesCompleted (the (activeWorkflows demo_a_done ''wf1''))
             (w_steps (the (activeWorkflows demo_a_done ''wf1'')) ! 1)"
    by (rule in_progress_only_with_completed_dependencies[OF demo_started_wf1 after])
       (simp_all add: demo_a_done_wf1)
  have c: "dependenciesCompleted (the (activeWorkflows demo_a_done ''wf1''))
             (w_steps (the (activeWorkflows demo_a_done ''wf1'')) ! 2)"
    by (rule in_progress_only_with_completed_dependencies[OF demo_started_wf1 after])
       (simp_all add: demo_a_done_wf1)
  from b c show ?thesis by (simp add: demo_started_wf1 demo_a_done_wf1)
qed

section \<open>Results that resolve\<close>

lemma demo_solo_completed_wf2:
  "activeWorkflows demo_solo_completed ''wf2'' =
     Some \<lparr> w_id = ''wf2'', w_name = ''Solo'', w_description = ''demo'',
            w_steps =
              [\<lparr> s_id = ''a'', s_name = ''a'', s_agentType = SCHEDULING, s_action = ''run'',
                 s_status = COMPLETED, s_config = [], s_dependsOn = [],
                 s_result = Some (demo_result ''wf2'' ''a'' True) \<rparr>],
            w_data = [], w_status = WF_completed, w_createdAt = 1, w_updatedAt = 5,
            w_completedAt = Some 5 \<rparr>"
  by (simp add: demo_defs model_defs)

text \<open>
  C10. When the result's workflow id and step id resolve (to a stored workflow and to
  the first step with that id), the handler leaves that step with the status given by
  the success flag, completed or failed, and with the result stored, whatever the
  step's status was before; the number of steps is unchanged. In particular a failed
  result for a workflow all of whose steps were already terminal, such as a second
  result for the completed step of a completed workflow, leaves the workflow failed.
\<close>

theorem result_sets_step_unconditionally:
  assumes "r_workflowId result = Some wid" "wid \<noteq> []"
      and "r_stepId result = Some sid" "sid \<noteq> []"
      and "activeWorkflows self wid = Some w"
      and "findIndex (\<lambda>s. s_id s = sid) (w_steps w) = Some k"
  shows "\<exists>w'. activeWorkflows (handleTaskResult gen now result self) wid = Some w'
           \<and> length (w_steps w') = length (w_steps w)
           \<and> w_steps w' ! k =
                (w_steps w ! k)\<lparr> s_status := (if r_success result then COMPLETED else FAILED),
                                 s_result := Some result \<rparr>
           \<and> (\<not> r_success result \<and> list_all isTerminal (w_steps w)
                 \<longrightarrow> w_status w' = WF_failed)"
proof -
  define wf1 where "wf1 = recordResult k result w"
  define dependentSteps where
    "dependentSteps = filter (\<lambda>i. s_id (w_steps wf1 ! k) \<in> set (s_dependsOn (w_steps wf1 ! i))
                                   \<and> s_status (w_steps wf1 ! i) = PENDING)
                        [0..<length (w_steps wf1)]"
  let ?E = "executeWorkflowStep gen now (agents self)"
  let ?start = "(wf1, [], uuidCalls self)"
  define run where
    "run = (if r_success result then fold ?E dependentSteps ?start else ?start)"
  define w' where "w' = fst (checkCompleted now run)"
  have h: "handleTaskResult gen now result self = commit wid (checkCompleted now run) self"
    using assms
    by (simp add: handleTaskResult_def Let_def wf1_def dependentSteps_def run_def
                  dispatchDependent_fun_eq falsy_def)
  then have stored: "activeWorkflows (handleTaskResult gen now result self) wid = Some w'"
    by (simp add: commit_lookup w'_def)
  from findIndex_Some[OF assms(6)] have klen: "k < length (w_steps w)" by simp
  have len1: "length (w_steps wf1) = length (w_steps w)"
    by (simp add: wf1_def recordResult_def)
  have k1: "w_steps wf1 ! k =
              (w_steps w ! k)\<lparr> s_status := (if r_success result then COMPLETED else FAILED),
                               s_result := Some result \<rparr>"
    using klen by (simp add: wf1_def recordResult_def)
  have knot: "k \<notin> set dependentSteps"
    by (simp add: dependentSteps_def k1)
  have steps_run: "w_steps (fst run) ! k = w_steps wf1 ! k"
    using knot by (simp add: run_def fold_other)
  have len_run: "length (w_steps (fst run)) = length (w_steps wf1)"
    by (simp add: run_def fold_length)
  have steps': "w_steps w' = w_steps (fst run)"
    by (simp add: w'_def checkCompleted_steps)
  have failed: "w_status w' = WF_failed"
    if nok: "\<not> r_success result" and allterm: "list_all isTerminal (w_steps w)"
  proof -
    from nok have run: "run = ?start" by (simp add: run_def)
    have steps1: "w_steps wf1 = (w_steps w)[k := (w_steps w ! k)\<lparr>s_status := FAILED, s_result := Some result\<rparr>]"
      using nok by (simp add: wf1_def recordResult_def)
    have all1: "list_all isTerminal (w_steps wf1)"
      unfolding list_all_iff
    proof
      fix s assume "s \<in> set (w_steps wf1)"
      then have "s \<in> insert ((w_steps w ! k)\<lparr>s_status := FAILED, s_result := Some result\<rparr>)
                       (set (w_steps w))"
        unfolding steps1 by (rule set_update_subset_insert[THEN subsetD])
      then consider "s = (w_steps w ! k)\<lparr>s_status := FAILED, s_result := Some result\<rparr>"
        | "s \<in> set (w_steps w)"
        by blast
      then show "isTerminal s"
      proof cases
        case 1
        then show ?thesis by (simp add: isTerminal_def)
      next
        case 2
        with allterm show ?thesis by (simp add: list_all_iff)
      qed
    qed
    have "w_steps wf1 ! k \<in> set (w_steps wf1)" using klen len1 by simp
    moreover have "s_status (w_steps wf1 ! k) = FAILED" using k1 nok by simp
    ultimately have any1: "list_ex (\<lambda>s. s_status s = FAILED) (w_steps wf1)"
      by (auto simp: list_ex_iff)
    from all1 any1 show ?thesis
      by (simp add: w'_def run checkCompleted_def)
  qed
  have a: "length (w_steps w') = length (w_steps w)"
    using steps' len_run len1 by simp
  have b: "w_steps w' ! k =
             (w_steps w ! k)\<lparr> s_status := (if r_success result then COMPLETED else FAILED),
                              s_result := Some result \<rparr>"
    using steps' steps_run k1 by simp
  have c: "\<not> r_success result \<and> list_all isTerminal (w_steps w) \<longrightarrow> w_status w' = WF_failed"
    using failed by blast
  from stored a b c show ?thesis by blast
qed

theorem result_sets_step_unconditionally_witness:
  "w_status (the (activeWorkflows demo_solo_completed ''wf2'')) = WF_completed
   \<and> s_status (w_steps (the (activeWorkflows demo_solo_completed ''wf2'')) ! 0) = COMPLETED
   \<and> length (w_steps (the (activeWorkflows demo_solo_failed_late ''wf2''))) = 1
   \<and> s_status (w_steps (the (activeWorkflows demo_solo_failed_late ''wf2'')) ! 0) = FAILED
   \<and> s_result (w_steps (the (activeWorkflows demo_solo_failed_late ''wf2'')) ! 0)
       = Some (demo_result ''wf2'' ''a'' False)
   \<and> w_status (the (activeWorkflows demo_solo_failed_late ''wf2'')) = WF_failed"
proof -
  have r: "r_workflowId (demo_result ''wf2'' ''a'' False) = Some ''wf2''" "''wf2'' \<noteq> []"
          "r_stepId (demo_result ''wf2'' ''a'' False) = Some ''a''" "''a'' \<noteq> []"
    by (simp_all add: demo_result_def)
  have k: "findIndex (\<lambda>s. s_id s = ''a'')
             (w_steps (the (activeWorkflows demo_solo_completed ''wf2''))) = Some 0"
    by (simp add: demo_solo_completed_wf2)
  have stored: "activeWorkflows demo_solo_completed ''wf2''
                  = Some (the (activeWorkflows demo_solo_completed ''wf2''))"
    by (simp add: demo_solo_completed_wf2)
  have allterm: "\<not> r_success (demo_result ''wf2'' ''a'' False)
              \<and> list_all isTerminal (w_steps (the (activeWorkflows demo_solo_completed ''wf2'')))"
    by (simp add: demo_solo_completed_wf2 demo_result_def isTerminal_def)
  from result_sets_step_unconditionally[OF r stored k, of demo_gen 6] allterm
  show ?thesis
    by (auto simp: demo_solo_failed_late_def demo_solo_completed_wf2 demo_result_def)
qed

section \<open>Workflow status and completion time\<close>

lemma onlyStatusChanged_top:
  "onlyStatusChanged w w' \<Longrightarrow> w_status w' = w_status w \<and> w_completedAt w' = w_completedAt w
     \<and> w_id w' = w_id w \<and> w_data w' = w_data w"
proof -
  assume "onlyStatusChanged w w'"
  then have "w' = w\<lparr>w_steps := w_steps w'\<rparr>" by (simp add: onlyStatusChanged_def)
  then have "w_status w' = w_status (w\<lparr>w_steps := w_steps w'\<rparr>)"
        "w_completedAt w' = w_completedAt (w\<lparr>w_steps := w_steps w'\<rparr>)"
        "w_id w' = w_id (w\<lparr>w_steps := w_steps w'\<rparr>)"
        "w_data w' = w_data (w\<lparr>w_steps := w_steps w'\<rparr>)"
    by simp_all
  then show ?thesis by simp
qed

lemma fold_top:
  "w_status (fst (fold (executeWorkflowStep gen now reg) is run)) = w_status (fst run)
   \<and> w_completedAt (fst (fold (executeWorkflowStep gen now reg) is run)) = w_completedAt (fst run)
   \<and> w_id (fst (fold (executeWorkflowStep gen now reg) is run)) = w_id (fst run)
   \<and> w_data (fst (fold (executeWorkflowStep gen now reg) is run)) = w_data (fst run)"
  using onlyStatusChanged_top[OF fold_onlyStatus[of run gen now reg "is"]] .

lemma checkCompleted_top:
  "(w_status (fst (checkCompleted now run)) = w_status (fst run)
      \<and> w_completedAt (fst (checkCompleted now run)) = w_completedAt (fst run))
   \<or> (isFinished (fst (checkCompleted now run))
      \<and> w_completedAt (fst (checkCompleted now run)) = Some now)"
  by (cases run) (simp add: checkCompleted_def Let_def isFinished_def)

text \<open>What an event can do to the status and completion time of a stored workflow.\<close>

lemma deliver_status_cases:
  assumes "activeWorkflows (deliver gen now ev self) wid = Some w'"
  obtains
    (kept) w where "activeWorkflows self wid = Some w"
      "w_status w' = w_status w" "w_completedAt w' = w_completedAt w"
  | (created) "w_status w' = WF_active" "w_completedAt w' = None"
  | (finished) "isFinished w'" "w_completedAt w' = Some now"
  | (reopened) w where "activeWorkflows self wid = Some w" "reopens ev wid"
      "w_status w' = WF_active \<or> w_status w' = WF_paused"
      "w_completedAt w' = w_completedAt w"
proof (cases ev)
  case (WorkflowCreate data)
  with assms createWorkflow_lookup[of gen now data self wid w']
  have "activeWorkflows self wid = Some w' \<or> (w_status w' = WF_active \<and> w_completedAt w' = None)"
    by auto
  then show ?thesis using kept[of w'] created by blast
next
  case (WorkflowStart wid0)
  show ?thesis
  proof (cases "activeWorkflows self wid0")
    case None
    with WorkflowStart assms have "activeWorkflows self wid = Some w'"
      by (simp add: startWorkflow_def)
    then show ?thesis using kept[of w'] by simp
  next
    case (Some w0)
    show ?thesis
    proof (cases "wid0 = wid")
      case False
      with WorkflowStart assms Some have "activeWorkflows self wid = Some w'"
        by (simp add: startWorkflow_def Let_def commit_lookup)
      then show ?thesis using kept[of w'] by simp
    next
      case True
      with WorkflowStart assms Some
      have "w_status w' = WF_active" "w_completedAt w' = w_completedAt w0"
        by (auto simp: startWorkflow_def Let_def commit_lookup fold_top)
      with True Some WorkflowStart show ?thesis
        using reopened[of w0] by (simp add: reopens_def)
    qed
  qed
next
  case (WorkflowPause wid0)
  show ?thesis
  proof (cases "activeWorkflows self wid0")
    case None
    with WorkflowPause assms have "activeWorkflows self wid = Some w'"
      by (simp add: pauseWorkflow_def)
    then show ?thesis using kept[of w'] by simp
  next
    case (Some w0)
    show ?thesis
    proof (cases "wid0 = wid")
      case False
      with WorkflowPause assms Some have "activeWorkflows self wid = Some w'"
        by (simp add: pauseWorkflow_def commit_lookup)
      then show ?thesis using kept[of w'] by simp
    next
      case True
      with WorkflowPause assms Some
      have "w_status w' = WF_paused" "w_completedAt w' = w_completedAt w0"
        by (auto simp: pauseWorkflow_def commit_lookup)
      with True Some WorkflowPause show ?thesis
        using reopened[of w0] by (simp add: reopens_def)
    qed
  qed
next
  case (WorkflowResume wid0)
  show ?thesis
  proof (cases "activeWorkflows self wid0")
    case None
    with WorkflowResume assms have "activeWorkflows self wid = Some w'"
      by (simp add: resumeWorkflow_def)
    then show ?thesis using kept[of w'] by simp
  next
    case (Some w0)
    show ?thesis
    proof (cases "wid0 = wid")
      case False
      with WorkflowResume assms Some have "activeWorkflows self wid = Some w'"
        by (simp add: resumeWorkflow_def Let_def commit_lookup)
      then show ?thesis using kept[of w'] by simp
    next
      case True
      with WorkflowResume assms Some
      have "w_status w' = WF_active" "w_completedAt w' = w_completedAt w0"
        by (auto simp: resumeWorkflow_def Let_def commit_lookup fold_top)
      with True Some WorkflowResume show ?thesis
        using reopened[of w0] by (simp add: reopens_def)
    qed
  qed
next
  case (WorkflowCancel wid0)
  show ?thesis
  proof (cases "activeWorkflows self wid0")
    case None
    with WorkflowCancel assms have "activeWorkflows self wid = Some w'"
      by (simp add: cancelWorkflow_def)
    then show ?thesis using kept[of w'] by simp
  next
    case (Some w0)
    show ?thesis
    proof (cases "wid0 = wid")
      case False
      with WorkflowCancel assms Some have "activeWorkflows self wid = Some w'"
        by (simp add: cancelWorkflow_def commit_lookup)
      then show ?thesis using kept[of w'] by simp
    next
      case True
      with WorkflowCancel assms Some
      have "isFinished w'" "w_completedAt w' = Some now"
        by (auto simp: cancelWorkflow_def commit_lookup isFinished_def)
      then show ?thesis by (rule finished)
    qed
  qed
next
  case (TaskResult result)
  show ?thesis
  proof (cases "handleTaskResult gen now result self = self")
    case True
    with TaskResult assms have "activeWorkflows self wid = Some w'" by simp
    then show ?thesis using kept[of w'] by simp
  next
    case False
    then obtain wid0 sid w0 k where
        r: "r_workflowId result = Some wid0" "r_stepId result = Some sid"
           "\<not> falsy (r_workflowId result)" "\<not> falsy (r_stepId result)"
      and w0: "activeWorkflows self wid0 = Some w0"
      and k: "findIndex (\<lambda>s. s_id s = sid) (w_steps w0) = Some k"
      by (auto simp: handleTaskResult_def falsy_def split: if_splits option.splits)
    define wf1 where "wf1 = recordResult k result w0"
    define dependentSteps where
      "dependentSteps = filter (\<lambda>i. s_id (w_steps wf1 ! k) \<in> set (s_dependsOn (w_steps wf1 ! i))
                                     \<and> s_status (w_steps wf1 ! i) = PENDING)
                          [0..<length (w_steps wf1)]"
    let ?E = "executeWorkflowStep gen now (agents self)"
    let ?start = "(wf1, [], uuidCalls self)"
    define run where
      "run = (if r_success result then fold ?E dependentSteps ?start else ?start)"
    have h: "handleTaskResult gen now result self = commit wid0 (checkCompleted now run) self"
      using r w0 k
      by (simp add: handleTaskResult_def Let_def wf1_def dependentSteps_def run_def
                    dispatchDependent_fun_eq)
    show ?thesis
    proof (cases "wid0 = wid")
      case False
      with TaskResult assms h have "activeWorkflows self wid = Some w'"
        by (simp add: commit_lookup)
      then show ?thesis using kept[of w'] by simp
    next
      case True
      with TaskResult assms h have w': "w' = fst (checkCompleted now run)"
        by (simp add: commit_lookup)
      have "w_status (fst run) = w_status w0 \<and> w_completedAt (fst run) = w_completedAt w0"
        by (simp add: run_def fold_top wf1_def recordResult_def)
      with checkCompleted_top[of now run] w'
      have "(w_status w' = w_status w0 \<and> w_completedAt w' = w_completedAt w0)
            \<or> (isFinished w' \<and> w_completedAt w' = Some now)"
        by auto
      then show ?thesis using kept[of w0] finished w0 True by blast
    qed
  qed
qed

text \<open>
  One event. (1) A stored workflow whose status is completed or failed has its
  \<open>completedAt\<close> set afterwards, provided this held for every stored workflow before.
  (2) The equivalence \<open>completedAt\<close> set iff status completed or failed holds afterwards
  for a stored workflow that is new or for which it held before, unless the event is a
  start, pause or resume of that workflow and its \<open>completedAt\<close> was already set: those
  three methods assign the status (active or paused) and leave \<open>completedAt\<close> as it is.
\<close>

lemma completedAt_preserved:
  assumes "\<forall>w \<in> ran (activeWorkflows self). isFinished w \<longrightarrow> w_completedAt w \<noteq> None"
      and "activeWorkflows (deliver gen now ev self) wid = Some w'"
  shows "(isFinished w' \<longrightarrow> w_completedAt w' \<noteq> None)
       \<and> ((\<forall>w. activeWorkflows self wid = Some w \<longrightarrow>
               completedAtIffTerminal w \<and> \<not> (reopens ev wid \<and> w_completedAt w \<noteq> None))
           \<longrightarrow> completedAtIffTerminal w')"
  using assms(2)
proof (cases rule: deliver_status_cases)
  case (kept w)
  from kept(1) have "w \<in> ran (activeWorkflows self)" by (auto simp: ran_def)
  with assms(1) kept show ?thesis
    by (auto simp: isFinished_def completedAtIffTerminal_def)
next
  case created
  then show ?thesis by (simp add: isFinished_def completedAtIffTerminal_def)
next
  case finished
  then show ?thesis by (simp add: isFinished_def completedAtIffTerminal_def)
next
  case (reopened w)
  then show ?thesis by (auto simp: isFinished_def completedAtIffTerminal_def)
qed

lemma demo_cancelled_wf1:
  "activeWorkflows demo_cancelled ''wf1'' =
     Some \<lparr> w_id = ''wf1'', w_name = ''Onboarding'', w_description = ''demo'',
            w_steps =
              [\<lparr> s_id = ''a'', s_name = ''a'', s_agentType = CUSTOMER_SERVICE, s_action = ''run'',
                 s_status = FAILED, s_config = [], s_dependsOn = [], s_result = None \<rparr>,
               \<lparr> s_id = ''b'', s_name = ''b'', s_agentType = DOCUMENT, s_action = ''run'',
                 s_status = SKIPPED, s_config = [], s_dependsOn = [''a''], s_result = None \<rparr>,
               \<lparr> s_id = ''c'', s_name = ''c'', s_agentType = BILLING, s_action = ''run'',
                 s_status = SKIPPED, s_config = [], s_dependsOn = [''a''], s_result = None \<rparr>],
            w_data = [], w_status = WF_failed, w_createdAt = 1, w_updatedAt = 3,
            w_completedAt = Some 3 \<rparr>"
  by (simp add: demo_defs model_defs)



lemma demo_started_store: "ran (activeWorkflows demo_started) = {the (activeWorkflows demo_started ''wf1'')}"
  by (simp add: demo_defs model_defs)


section \<open>Events after a cancellation\<close>











section \<open>Tasks dispatched by start\<close>





lemma demo_meta_created_wf3:
  "activeWorkflows demo_meta_created ''wf3'' =
     Some \<lparr> w_id = ''wf3'', w_name = ''Meta'', w_description = ''demo'',
            w_steps =
              [\<lparr> s_id = ''m'', s_name = ''m'', s_agentType = WORKFLOW, s_action = ''run'',
                 s_status = PENDING, s_config = [], s_dependsOn = [], s_result = None \<rparr>],
            w_data = [], w_status = WF_active, w_createdAt = 1, w_updatedAt = 1,
            w_completedAt = None \<rparr>"
  by (simp add: demo_defs model_defs)






section \<open>Suspended loops\<close>

lemma executeWorkflowStep_appends:
  "executeWorkflowStep gen now reg i (w, evs, n) =
     (case executeWorkflowStep gen now reg i (w, [], n) of
        (w', new, n') \<Rightarrow> (w', evs @ new, n'))"
  by (simp add: executeWorkflowStep_def split: option.splits)

lemma commit_agents: "agents (commit key run self) = agents self"
  by (cases run) (simp add: commit_def)

lemma tryNextStep_commit:
  "tryNextStep gen now wid i (commit wid run self)
     = commit wid (executeWorkflowStep gen now (agents self) i run) self"
proof -
  obtain w evs n where run: "run = (w, evs, n)" by (cases run)
  obtain w' new n' where e: "executeWorkflowStep gen now (agents self) i (w, [], n) = (w', new, n')"
    by (cases "executeWorkflowStep gen now (agents self) i (w, [], n)")
  then have e': "executeWorkflowStep gen now (agents self) i (w, evs, n) = (w', evs @ new, n')"
    using executeWorkflowStep_appends[of gen now "agents self" i w evs n] by simp
  show ?thesis
    unfolding run e' by (simp add: tryNextStep_def commit_def e)
qed

lemma fold_tryNextStep:
  "fold (tryNextStep gen now wid) is (commit wid run self)
     = commit wid (fold (executeWorkflowStep gen now (agents self)) is run) self"
  by (induction "is" arbitrary: run) (simp_all add: tryNextStep_commit)


lemma resumeWorkflow_uninterrupted:
  "resumeWorkflow gen now wid self =
     (case resumeWorkflow_begin gen now wid self of
        (err, suspended, rest) \<Rightarrow> (err, fold (tryNextStep gen now wid) rest suspended))"
  by (simp add: resumeWorkflow_def resumeWorkflow_begin_def Let_def fold_tryNextStep
           split: option.splits list.splits)


lemma checkCompleted_appends:
  "checkCompleted now (w, evs, n) =
     (case checkCompleted now (w, [], n) of (w', new, n') \<Rightarrow> (w', evs @ new, n'))"
  by (simp add: checkCompleted_def Let_def)

lemma completeIfDone_commit:
  "completeIfDone now wid (commit wid run self) = commit wid (checkCompleted now run) self"
proof -
  obtain w evs n where run: "run = (w, evs, n)" by (cases run)
  obtain w' new n' where c: "checkCompleted now (w, [], n) = (w', new, n')"
    by (cases "checkCompleted now (w, [], n)")
  then have c': "checkCompleted now (w, evs, n) = (w', evs @ new, n')"
    using checkCompleted_appends[of now w evs n] by simp
  show ?thesis
    unfolding run c' by (simp add: completeIfDone_def commit_def c)
qed

lemma tryDependent_commit:
  "tryDependent gen now wid i (commit wid run self)
     = commit wid (dispatchDependent gen now (agents self) i run) self"
proof -
  obtain w evs n where run: "run = (w, evs, n)" by (cases run)
  show ?thesis
  proof (cases "areStepDependenciesMet w (w_steps w ! i)")
    case False
    then show ?thesis
      by (simp add: run tryDependent_def dispatchDependent_def commit_def)
  next
    case True
    have "tryDependent gen now wid i (commit wid run self)
            = tryNextStep gen now wid i (commit wid run self)"
      using True by (simp add: run tryDependent_def tryNextStep_def commit_def)
    with True show ?thesis
      by (simp add: tryNextStep_commit dispatchDependent_def run)
  qed
qed

lemma fanOutToEnd_commit:
  "fanOutToEnd gen now wid is (commit wid run self)
     = commit wid (checkCompleted now (fold (dispatchDependent gen now (agents self)) is run)) self"
  by (induction "is" arbitrary: run) (simp_all add: completeIfDone_commit tryDependent_commit)

lemma fanOutToEnd_absent:
  "activeWorkflows self wid = None \<Longrightarrow> fanOutToEnd gen now wid is self = self"
  by (induction "is") (simp_all add: completeIfDone_def tryDependent_def)

lemma fanOut_fanOutToEnd:
  "fanOutToEnd gen now wid is self =
     (case fanOut gen now wid is self of
        (self', None) \<Rightarrow> self'
      | (self', Some rest) \<Rightarrow> fanOutToEnd gen now wid rest self')"
proof (induction "is")
  case Nil
  show ?case by simp
next
  case (Cons i "is")
  show ?case
  proof (cases "activeWorkflows self wid")
    case None
    then show ?thesis by (simp add: tryDependent_def fanOutToEnd_absent)
  next
    case (Some w)
    show ?thesis
    proof (cases "areStepDependenciesMet w (w_steps w ! i)")
      case True
      with Some show ?thesis by (simp add: tryDependent_def)
    next
      case False
      with Some Cons.IH show ?thesis by (simp add: tryDependent_def)
    qed
  qed
qed

lemma handleTaskResult_uninterrupted:
  "handleTaskResult gen now result self =
     (case handleTaskResult_begin gen now result self of
        (self', None) \<Rightarrow> self'
      | (self', Some rest) \<Rightarrow> fanOutToEnd gen now (the (r_workflowId result)) rest self')"
proof (cases "falsy (r_workflowId result) \<or> falsy (r_stepId result)")
  case True
  then show ?thesis by (simp add: handleTaskResult_def handleTaskResult_begin_def)
next
  case uncorrelated: False
  show ?thesis
  proof (cases "activeWorkflows self (the (r_workflowId result))")
    case None
    with uncorrelated show ?thesis by (simp add: handleTaskResult_def handleTaskResult_begin_def)
  next
    case (Some w)
    show ?thesis
    proof (cases "findIndex (\<lambda>s. s_id s = the (r_stepId result)) (w_steps w)")
      case None
      with uncorrelated Some show ?thesis
        by (simp add: handleTaskResult_def handleTaskResult_begin_def)
    next
      case found: (Some k)
      let ?wid = "the (r_workflowId result)"
      define wf1 where "wf1 = recordResult k result w"
      define deps where
        "deps = filter (\<lambda>i. s_id (w_steps wf1 ! k) \<in> set (s_dependsOn (w_steps wf1 ! i))
                              \<and> s_status (w_steps wf1 ! i) = PENDING)
                  [0..<length (w_steps wf1)]"
      let ?recorded = "commit ?wid (wf1, [], uuidCalls self) self"
      have atomic: "handleTaskResult gen now result self =
          commit ?wid (checkCompleted now
            (if r_success result
             then fold (dispatchDependent gen now (agents self)) deps (wf1, [], uuidCalls self)
             else (wf1, [], uuidCalls self))) self"
        using uncorrelated Some found
        by (simp add: handleTaskResult_def Let_def wf1_def deps_def)
      have pieces: "handleTaskResult_begin gen now result self =
          (if r_success result then fanOut gen now ?wid deps ?recorded
           else (completeIfDone now ?wid ?recorded, None))"
        using uncorrelated Some found
        by (simp add: handleTaskResult_begin_def Let_def wf1_def deps_def)
      show ?thesis
      proof (cases "r_success result")
        case False
        then show ?thesis by (simp add: atomic pieces completeIfDone_commit)
      next
        case True
        have "fanOutToEnd gen now ?wid deps ?recorded =
                (case fanOut gen now ?wid deps ?recorded of
                   (self', None) \<Rightarrow> self'
                 | (self', Some rest) \<Rightarrow> fanOutToEnd gen now ?wid rest self')"
          by (rule fanOut_fanOutToEnd)
        with True show ?thesis
          by (simp add: atomic pieces fanOutToEnd_commit)
      qed
    qed
  qed
qed


section \<open>Start, uninterrupted and interrupted\<close>

text \<open>
  A cancel handled while the loop of \<open>startWorkflow\<close> is suspended keeps the remaining
  steps from being dispatched: \<open>wf4\<close> ends with one task published for three steps
  without dependencies, the first step failed, the others skipped.
\<close>

lemma start_interrupted_by_cancel:
  "map s_status (w_steps (the (activeWorkflows demo_trio_cancelled_midway ''wf4'')))
     = [FAILED, SKIPPED, SKIPPED]
   \<and> published demo_trio_cancelled_midway =
       published demo_trio_created
       @ [taskEvent 2 (the (activeWorkflows demo_trio_created ''wf4''))
            (w_steps (the (activeWorkflows demo_trio_created ''wf4'')) ! 0) ''uuid-'',
          (''workflow:cancelled'', WorkflowEvent ''wf4'')]"
  by (simp add: demo_trio_cancelled_midway_def demo_trio_created_def demo_trio_definition_def
                startWorkflow_begin_def tryNextStep_def taskEvent_def demo_defs model_defs)



section \<open>Completion time along a run of whole operations\<close>

lemma finished_stamped_step:
  assumes "\<forall>w \<in> ran (activeWorkflows self). isFinished w \<longrightarrow> w_completedAt w \<noteq> None"
  shows "\<forall>w \<in> ran (activeWorkflows (deliver gen now ev self)).
           isFinished w \<longrightarrow> w_completedAt w \<noteq> None"
proof
  fix w' assume "w' \<in> ran (activeWorkflows (deliver gen now ev self))"
  then obtain wid where "activeWorkflows (deliver gen now ev self) wid = Some w'"
    by (auto simp: ran_def)
  from completedAt_preserved[OF assms this]
  show "isFinished w' \<longrightarrow> w_completedAt w' \<noteq> None" by blast
qed

lemma reopens_stamped:
  assumes "reopens ev wid" and "activeWorkflows self wid = Some w" and "\<not> reopensStamped ev self"
  shows "w_completedAt w = None"
  using assms by (auto simp: reopens_def reopensStamped_def stamped_def)

lemma iff_terminal_step:
  assumes "\<forall>w \<in> ran (activeWorkflows self). completedAtIffTerminal w"
      and "\<not> reopensStamped ev self"
  shows "\<forall>w \<in> ran (activeWorkflows (deliver gen now ev self)). completedAtIffTerminal w"
proof
  fix w' assume "w' \<in> ran (activeWorkflows (deliver gen now ev self))"
  then obtain wid where after: "activeWorkflows (deliver gen now ev self) wid = Some w'"
    by (auto simp: ran_def)
  have stampedBefore:
    "\<forall>w \<in> ran (activeWorkflows self). isFinished w \<longrightarrow> w_completedAt w \<noteq> None"
    using assms(1) by (auto simp: completedAtIffTerminal_def isFinished_def)
  have before: "\<forall>w. activeWorkflows self wid = Some w \<longrightarrow>
                  completedAtIffTerminal w \<and> \<not> (reopens ev wid \<and> w_completedAt w \<noteq> None)"
  proof (intro allI impI)
    fix w assume w: "activeWorkflows self wid = Some w"
    then have "w \<in> ran (activeWorkflows self)" by (auto simp: ran_def)
    with assms(1) have "completedAtIffTerminal w" by simp
    moreover have "\<not> (reopens ev wid \<and> w_completedAt w \<noteq> None)"
      using reopens_stamped[OF _ w assms(2)] by auto
    ultimately show "completedAtIffTerminal w \<and> \<not> (reopens ev wid \<and> w_completedAt w \<noteq> None)"
      by simp
  qed
  from completedAt_preserved[OF stampedBefore after] before
  show "completedAtIffTerminal w'" by blast
qed

lemma runEvents_finished_stamped:
  assumes "\<forall>w \<in> ran (activeWorkflows self). isFinished w \<longrightarrow> w_completedAt w \<noteq> None"
  shows "\<forall>w \<in> ran (activeWorkflows (runEvents gen events self)).
           isFinished w \<longrightarrow> w_completedAt w \<noteq> None"
  using assms
proof (induction events arbitrary: self)
  case Nil
  then show ?case by simp
next
  case (Cons timed events)
  obtain now ev where timed: "timed = (now, ev)" by (cases timed)
  from Cons.IH[OF finished_stamped_step[OF Cons.prems, of gen now ev]]
  show ?case by (simp add: timed)
qed

lemma runEvents_iff_terminal:
  assumes "\<forall>w \<in> ran (activeWorkflows self). completedAtIffTerminal w"
      and "neverReopens gen events self"
  shows "\<forall>w \<in> ran (activeWorkflows (runEvents gen events self)). completedAtIffTerminal w"
  using assms
proof (induction events arbitrary: self)
  case Nil
  then show ?case by simp
next
  case (Cons timed events)
  obtain now ev where timed: "timed = (now, ev)" by (cases timed)
  from Cons.prems(2) have quiet: "\<not> reopensStamped ev self"
    and rest: "neverReopens gen events (deliver gen now ev self)"
    by (simp_all add: timed)
  from Cons.IH[OF iff_terminal_step[OF Cons.prems(1) quiet, of gen now] rest]
  show ?case by (simp add: timed)
qed

text \<open>
  Events handled one after the other, each to the end of its method, from an empty
  store: a stored workflow whose status is completed or failed has its \<open>completedAt\<close>
  set; and its \<open>completedAt\<close> is set only if its status is completed or failed, provided
  no start, pause or resume of the sequence was applied to a workflow whose
  \<open>completedAt\<close> was already set.
\<close>

lemma completedAt_along_events:
  assumes "activeWorkflows self = Map.empty"
      and "activeWorkflows (runEvents gen events self) wid = Some w"
  shows "(isFinished w \<longrightarrow> w_completedAt w \<noteq> None)
       \<and> (neverReopens gen events self \<longrightarrow> completedAtIffTerminal w)"
proof -
  from assms(2) have stored: "w \<in> ran (activeWorkflows (runEvents gen events self))"
    by (auto simp: ran_def)
  have "\<forall>w \<in> ran (activeWorkflows self). isFinished w \<longrightarrow> w_completedAt w \<noteq> None"
    using assms(1) by simp
  from runEvents_finished_stamped[OF this, of gen events] stored
  have one: "isFinished w \<longrightarrow> w_completedAt w \<noteq> None" by blast
  have two: "completedAtIffTerminal w" if "neverReopens gen events self"
  proof -
    have "\<forall>w \<in> ran (activeWorkflows self). completedAtIffTerminal w"
      using assms(1) by simp
    from runEvents_iff_terminal[OF this that] stored show ?thesis by blast
  qed
  from one two show ?thesis by blast
qed

lemma demo_events_run: "runEvents demo_gen demo_events (fst demo_ready) = demo_cancelled"
  by (simp add: demo_events_def demo_cancelled_def demo_started_def demo_created_def)

lemma demo_ready_store: "activeWorkflows (fst demo_ready) = Map.empty"
  by (simp add: demo_defs model_defs)

lemma demo_created_fresh: "\<not> stamped demo_created ''wf1''"
  by (simp add: stamped_def demo_created_wf1)

lemma demo_cancelled_stamped: "stamped demo_cancelled ''wf1''"
  by (simp add: stamped_def demo_cancelled_wf1)

lemma demo_events_never_reopen: "neverReopens demo_gen demo_events (fst demo_ready)"
  unfolding demo_events_def neverReopens.simps demo_created_def[symmetric]
    demo_started_def[symmetric]
  by (simp add: reopensStamped_def demo_created_fresh)

lemma completedAt_along_events_demo:
  "activeWorkflows (fst demo_ready) = Map.empty
   \<and> runEvents demo_gen demo_events (fst demo_ready) = demo_cancelled
   \<and> neverReopens demo_gen demo_events (fst demo_ready)
   \<and> isFinished (the (activeWorkflows demo_cancelled ''wf1''))
   \<and> w_completedAt (the (activeWorkflows demo_cancelled ''wf1'')) = Some 3
   \<and> completedAtIffTerminal (the (activeWorkflows demo_cancelled ''wf1''))
   \<and> \<not> neverReopens demo_gen (demo_events @ [(4, WorkflowResume ''wf1'')]) (fst demo_ready)"
proof -
  have stored: "activeWorkflows (runEvents demo_gen demo_events (fst demo_ready)) ''wf1''
                  = Some (the (activeWorkflows demo_cancelled ''wf1''))"
    by (simp add: demo_events_run demo_cancelled_wf1)
  from completedAt_along_events[OF demo_ready_store stored] demo_events_never_reopen
  have "completedAtIffTerminal (the (activeWorkflows demo_cancelled ''wf1''))" by blast
  moreover have "\<not> neverReopens demo_gen (demo_events @ [(4, WorkflowResume ''wf1'')])
                     (fst demo_ready)"
    unfolding demo_events_def append.simps neverReopens.simps demo_created_def[symmetric]
      demo_started_def[symmetric] demo_cancelled_def[symmetric]
    by (simp add: reopensStamped_def demo_cancelled_stamped)
  ultimately show ?thesis
    by (simp add: demo_ready_store demo_events_run demo_events_never_reopen
                  demo_cancelled_wf1 isFinished_def)
qed

section \<open>Completion time along interleaved runs\<close>

























end
